theory Spec2Isabelle
  imports Main "HOL-Library.Word"
begin

unbundle bit_operations_syntax

section \<open>The declarations of h2.h\<close>

text \<open>
  h2.c includes h2.h, which is not among the sources. What h2.c takes from it is modelled
  in two ways. The instruction prefixes, the stack-delta fields and the three transfer
  flags are fixed below, from the specification (and from the masks written out in
  \<^verbatim>\<open>h2_run\<close>: \<^verbatim>\<open>instruction & 0x7FFF\<close>, \<^verbatim>\<open>instruction & 0x1FFF\<close>). Everything the
  specification leaves open or states inconsistently is a field of the record
  \<open>h2_header\<close>, over which the theorems quantify: the memory map, the width of the ALU
  operation field (the specification gives 16 codes but lists the 22 operations that the
  \<^verbatim>\<open>switch\<close> of \<^verbatim>\<open>h2_run\<close> dispatches on), the position of the \<open>R\<rightarrow>PC\<close> flag, the
  instruction words the assembler uses in loops and built-in words, and the table of
  instruction mnemonics (\<^verbatim>\<open>X_MACRO_INSTRUCTIONS\<close>: the mnemonic, whether \<^verbatim>\<open>.built-in\<close>
  compiles it, and its instruction word). The record has one more field, which is a fact
  of the C implementation and not a declaration: \<open>union_number\<close> is what \<^verbatim>\<open>p.number\<close>
  reads from a token whose union \<^verbatim>\<open>p\<close> does not hold a number (for a token that holds a
  string, 16 bits of the pointer \<^verbatim>\<open>p.id\<close>). The source reads it for a constant whose value
  is a string, and no value of it makes that assembly fail.
\<close>

type_synonym cell = "16 word"

text \<open>
  A token, with the member of the union \<^verbatim>\<open>p\<close> that its type selects. All the tokens of
  the range \<^verbatim>\<open>LEX_DUP\<close> to \<^verbatim>\<open>LEX_RDROP\<close> are \<open>LEX_INSTRUCTION\<close> with their mnemonic,
  all those of the range \<^verbatim>\<open>LEX_CONSTANT\<close> to \<^verbatim>\<open>LEX_BUILT_IN\<close> are \<open>LEX_KEYWORD\<close> with
  their entry of \<^verbatim>\<open>keywords\<close>.
\<close>

datatype token_t =
  LEX_LITERAL cell
| LEX_IDENTIFIER string
| LEX_LABEL string
| LEX_STRING string
| LEX_INSTRUCTION string
| LEX_KEYWORD string

record h2_header =
  MAX_PROGRAM :: nat
  START_ADDR :: cell
  VARIABLE_STACK_START :: cell
  RETURN_STACK_START :: cell
  ALU_OP_LENGTH :: nat
  R_TO_PC :: cell
  CODE_FROMR :: cell
  CODE_LOAD :: cell
  CODE_T_N1 :: cell
  CODE_TOR :: cell
  CODE_RAT :: cell
  CODE_RDROP :: cell
  X_MACRO_INSTRUCTIONS :: "(string \<times> bool \<times> cell) list"
  union_number :: "token_t \<Rightarrow> cell"

text \<open>Modelled from the spec: the instruction prefixes of h2.h (specification, section 3).\<close>

definition OP_BRANCH :: cell where "OP_BRANCH = 0x0000"
definition OP_0BRANCH :: cell where "OP_0BRANCH = 0x2000"
definition OP_CALL :: cell where "OP_CALL = 0x4000"
definition OP_ALU_OP :: cell where "OP_ALU_OP = 0x6000"
definition OP_LITERAL :: cell where "OP_LITERAL = 0x8000"

definition IS_LITERAL :: "cell \<Rightarrow> bool" where
  "IS_LITERAL i \<longleftrightarrow> i AND 0x8000 = 0x8000"
definition IS_BRANCH :: "cell \<Rightarrow> bool" where
  "IS_BRANCH i \<longleftrightarrow> i AND 0xE000 = 0x0000"
definition IS_0BRANCH :: "cell \<Rightarrow> bool" where
  "IS_0BRANCH i \<longleftrightarrow> i AND 0xE000 = 0x2000"
definition IS_CALL :: "cell \<Rightarrow> bool" where
  "IS_CALL i \<longleftrightarrow> i AND 0xE000 = 0x4000"
definition IS_ALU_OP :: "cell \<Rightarrow> bool" where
  "IS_ALU_OP i \<longleftrightarrow> i AND 0xE000 = 0x6000"

text \<open>
  Modelled from the spec: the field decoders and composers of h2.h (specification,
  section 4.1): \<open>dstack(w) = w & 3\<close>, \<open>rstack(w) = (w >> 2) & 3\<close>, the ALU operation
  from bit 8 upwards, \<open>T\<rightarrow>N\<close> bit 7, \<open>T\<rightarrow>R\<close> bit 6, \<open>N\<rightarrow>[T]\<close> bit 5. The delta codes
  \<open>0, 1, 2, 3\<close> stand for \<open>0, +1, -2, -1\<close>.
\<close>

definition DSTACK :: "cell \<Rightarrow> cell" where "DSTACK i = i AND 3"
definition RSTACK :: "cell \<Rightarrow> cell" where "RSTACK i = drop_bit 2 i AND 3"
definition MK_DSTACK :: "cell \<Rightarrow> cell" where "MK_DSTACK d = d"
definition MK_RSTACK :: "cell \<Rightarrow> cell" where "MK_RSTACK d = push_bit 2 d"
definition ALU_OP :: "h2_header \<Rightarrow> cell \<Rightarrow> cell" where
  "ALU_OP cf i = drop_bit 8 i AND mask (ALU_OP_LENGTH cf)"
definition MK_CODE :: "cell \<Rightarrow> cell" where "MK_CODE c = push_bit 8 c"

definition DELTA_0 :: cell where "DELTA_0 = 0"
definition DELTA_N2 :: cell where "DELTA_N2 = 2"
definition DELTA_N1 :: cell where "DELTA_N1 = 3"

definition T_TO_N :: cell where "T_TO_N = 0x0080"
definition T_TO_R :: cell where "T_TO_R = 0x0040"
definition N_TO_ADDR_T :: cell where "N_TO_ADDR_T = 0x0020"

text \<open>
  Modelled from the spec: the ALU operation codes of h2.h, numbered in the order in
  which the specification lists them (section 3), which is the order of the cases of
  the \<^verbatim>\<open>switch\<close> in \<^verbatim>\<open>h2_run\<close>.
\<close>

definition ALU_OP_T :: cell where "ALU_OP_T = 0"
definition ALU_OP_N :: cell where "ALU_OP_N = 1"
definition ALU_OP_T_PLUS_N :: cell where "ALU_OP_T_PLUS_N = 2"
definition ALU_OP_T_AND_N :: cell where "ALU_OP_T_AND_N = 3"
definition ALU_OP_T_OR_N :: cell where "ALU_OP_T_OR_N = 4"
definition ALU_OP_T_XOR_N :: cell where "ALU_OP_T_XOR_N = 5"
definition ALU_OP_T_INVERT :: cell where "ALU_OP_T_INVERT = 6"
definition ALU_OP_T_EQUAL_N :: cell where "ALU_OP_T_EQUAL_N = 7"
definition ALU_OP_N_LESS_T :: cell where "ALU_OP_N_LESS_T = 8"
definition ALU_OP_N_RSHIFT_T :: cell where "ALU_OP_N_RSHIFT_T = 9"
definition ALU_OP_T_DECREMENT :: cell where "ALU_OP_T_DECREMENT = 10"
definition ALU_OP_R :: cell where "ALU_OP_R = 11"
definition ALU_OP_T_LOAD :: cell where "ALU_OP_T_LOAD = 12"
definition ALU_OP_N_LSHIFT_T :: cell where "ALU_OP_N_LSHIFT_T = 13"
definition ALU_OP_DEPTH :: cell where "ALU_OP_DEPTH = 14"
definition ALU_OP_N_ULESS_T :: cell where "ALU_OP_N_ULESS_T = 15"
definition ALU_OP_RDEPTH :: cell where "ALU_OP_RDEPTH = 16"
definition ALU_OP_T_EQUAL_0 :: cell where "ALU_OP_T_EQUAL_0 = 17"
definition ALU_OP_TX :: cell where "ALU_OP_TX = 18"
definition ALU_OP_RX :: cell where "ALU_OP_RX = 19"
definition ALU_OP_SAVE :: cell where "ALU_OP_SAVE = 20"
definition ALU_OP_BYE :: cell where "ALU_OP_BYE = 21"

text \<open>
  Modelled from the spec: the instruction words the assembler names. \<open>CODE_EXIT\<close> is
  the return (\<open>R\<rightarrow>PC\<close> set, r-stack delta \<open>-1\<close>, section 4.6), \<open>CODE_INVERT\<close> the
  single-word ALU operation computing \<open>~T\<close>.
\<close>

definition CODE_EXIT :: "h2_header \<Rightarrow> cell" where
  "CODE_EXIT cf = OP_ALU_OP OR MK_CODE ALU_OP_T OR R_TO_PC cf OR MK_RSTACK DELTA_N1"
definition CODE_INVERT :: cell where
  "CODE_INVERT = OP_ALU_OP OR MK_CODE ALU_OP_T_INVERT"

section \<open>The virtual machine\<close>

text \<open>
  \<^verbatim>\<open>h2_t\<close>: the core array and the four registers. The array is indexed by 16-bit
  values only, so it is a function on cells; an index beyond the declared array size is
  undefined behaviour in C and reads this function here. The host is what \<^verbatim>\<open>putch\<close>,
  \<^verbatim>\<open>getch\<close> and \<^verbatim>\<open>save\<close> act on: the bytes still to be read (none left is \<^verbatim>\<open>EOF\<close>), the
  bytes written, and the last block saved.
\<close>

record h2_t =
  core :: "cell \<Rightarrow> cell"
  pc :: cell
  tos :: cell
  rp :: cell
  sp :: cell

record host =
  stdin :: "8 word list"
  stdout :: "8 word list"
  block :: "(cell \<Rightarrow> cell) option"

text \<open>One pass of the \<^verbatim>\<open>for(;;)\<close> loop either goes on, returns from \<^verbatim>\<open>h2_run\<close>, or
  leaves the process through \<^verbatim>\<open>exit(EXIT_SUCCESS)\<close> in \<^verbatim>\<open>wrap_getch\<close>.\<close>

datatype outcome = Next h2_t host | Return int | Exit

definition ESCAPE :: "8 word" where "ESCAPE = 27"

definition h2_new :: "h2_header \<Rightarrow> cell \<Rightarrow> h2_t" where
  "h2_new cf start_address =
     \<lparr> core = (\<lambda>i. if i < start_address then OP_BRANCH OR start_address else 0),
       pc = start_address, tos = 0,
       rp = RETURN_STACK_START cf, sp = VARIABLE_STACK_START cf \<rparr>"

definition dpush :: "h2_t \<Rightarrow> cell \<Rightarrow> h2_t" where
  "dpush h v = (let sp' = sp h + 1 in h\<lparr> sp := sp', core := (core h)(sp' := tos h), tos := v \<rparr>)"

definition dpop :: "h2_t \<Rightarrow> cell \<times> h2_t" where
  "dpop h = (tos h, h\<lparr> tos := core h (sp h), sp := sp h - 1 \<rparr>)"

definition rpush :: "h2_t \<Rightarrow> cell \<Rightarrow> h2_t" where
  "rpush h r = (let rp' = rp h + 1 in h\<lparr> rp := rp', core := (core h)(rp' := r) \<rparr>)"

definition stack_delta :: "cell \<Rightarrow> cell" where
  "stack_delta d = [0x0000, 0x0001, 0xFFFE, 0xFFFF] ! unat d"

definition bool_neg :: "bool \<Rightarrow> cell" where
  "bool_neg b = (if b then - 1 else 0)"

text \<open>The tail of the ALU branch, after the \<^verbatim>\<open>switch\<close>: stack pointers, the three
  transfers (all of the old \<open>tos\<close>), then the new \<open>tos\<close> and \<open>pc\<close>.\<close>

definition alu_commit :: "h2_t \<Rightarrow> cell \<Rightarrow> cell \<Rightarrow> cell \<Rightarrow> cell \<Rightarrow> h2_t" where
  "alu_commit h instruction nos tos' npc =
     (let h1 = h\<lparr> sp := sp h + stack_delta (DSTACK instruction),
                  rp := rp h + stack_delta (RSTACK instruction) \<rparr>;
          h2 = (if instruction AND T_TO_R \<noteq> 0 then h1\<lparr> core := (core h1)(rp h1 := tos h1) \<rparr> else h1);
          h3 = (if instruction AND T_TO_N \<noteq> 0 then h2\<lparr> core := (core h2)(sp h2 := tos h2) \<rparr> else h2);
          h4 = (if instruction AND N_TO_ADDR_T \<noteq> 0
                then h3\<lparr> core := (core h3)(drop_bit 1 (tos h3) := nos) \<rparr> else h3)
      in h4\<lparr> tos := tos', pc := npc \<rparr>)"

definition h2_step :: "h2_header \<Rightarrow> h2_t \<Rightarrow> host \<Rightarrow> outcome" where
  "h2_step cf h w =
    (let instruction = core h (pc h);
         literal = instruction AND 0x7FFF;
         address = instruction AND 0x1FFF;
         pc_plus_one = (of_nat ((unat (pc h) + 1) mod MAX_PROGRAM cf) :: cell)
     in if IS_LITERAL instruction then Next ((dpush h literal)\<lparr> pc := pc_plus_one \<rparr>) w
        else if IS_ALU_OP instruction then
          (let nos = core h (sp h);
               t = tos h;
               npc = (if instruction AND R_TO_PC cf \<noteq> 0 then drop_bit 1 (core h (rp h)) else pc_plus_one);
               op = ALU_OP cf instruction;
               fin = (\<lambda>t'. Next (alu_commit h instruction nos t' npc) w)
           in if op = ALU_OP_T then fin t
              else if op = ALU_OP_N then fin nos
              else if op = ALU_OP_T_PLUS_N then fin (t + nos)
              else if op = ALU_OP_T_AND_N then fin (t AND nos)
              else if op = ALU_OP_T_OR_N then fin (t OR nos)
              else if op = ALU_OP_T_XOR_N then fin (t XOR nos)
              else if op = ALU_OP_T_INVERT then fin (NOT t)
              else if op = ALU_OP_T_EQUAL_N then fin (bool_neg (t = nos))
              else if op = ALU_OP_N_LESS_T then fin (bool_neg (nos <s t))
              else if op = ALU_OP_N_RSHIFT_T then fin (drop_bit (unat t) nos)
              else if op = ALU_OP_T_DECREMENT then fin (t - 1)
              else if op = ALU_OP_R then fin (core h (rp h))
              else if op = ALU_OP_T_LOAD then fin (core h (drop_bit 1 (tos h)))
              else if op = ALU_OP_N_LSHIFT_T then fin (push_bit (unat t) nos)
              else if op = ALU_OP_DEPTH then fin (sp h - VARIABLE_STACK_START cf)
              else if op = ALU_OP_N_ULESS_T then fin (bool_neg (nos < t))
              else if op = ALU_OP_RDEPTH then fin (rp h - RETURN_STACK_START cf)
              else if op = ALU_OP_T_EQUAL_0 then fin (bool_neg (t = 0))
              else if op = ALU_OP_TX then
                Next (alu_commit h instruction nos nos npc) (w\<lparr> stdout := stdout w @ [ucast t] \<rparr>)
              else if op = ALU_OP_RX then
                (case stdin w of
                   [] \<Rightarrow> Exit
                 | ch # rest \<Rightarrow>
                     if ch = ESCAPE then Exit
                     else Next (alu_commit h instruction nos (ucast ch) npc) (w\<lparr> stdin := rest \<rparr>))
              else if op = ALU_OP_SAVE then
                Next (alu_commit h instruction nos t npc) (w\<lparr> block := Some (core h) \<rparr>)
              else if op = ALU_OP_BYE then Return (uint t)
              else fin t)
        else if IS_CALL instruction then
          Next ((rpush h (push_bit 1 pc_plus_one))\<lparr> pc := address \<rparr>) w
        else if IS_0BRANCH instruction then
          (case dpop h of (r, h') \<Rightarrow>
             if r = 0 then Next (h'\<lparr> pc := of_nat (unat address mod MAX_PROGRAM cf) \<rparr>) w
             else Next (h'\<lparr> pc := pc_plus_one \<rparr>) w)
        else Next (h\<lparr> pc := address \<rparr>) w)"

text \<open>\<^verbatim>\<open>h2_run\<close>: the loop has no bound, so not returning is the value \<open>None\<close>.\<close>

partial_function (option) h2_run :: "h2_header \<Rightarrow> h2_t \<Rightarrow> host \<Rightarrow> outcome option" where
  "h2_run cf h w =
     (case h2_step cf h w of
        Next h' w' \<Rightarrow> h2_run cf h' w'
      | Return r \<Rightarrow> Some (Return r)
      | Exit \<Rightarrow> Some Exit)"

section \<open>The assembler: symbols, state, code generation\<close>

datatype symbol_type_e =
  SYMBOL_TYPE_LABEL | SYMBOL_TYPE_CALL | SYMBOL_TYPE_CONSTANT | SYMBOL_TYPE_VARIABLE

record symbol_t =
  id :: string
  val :: cell
  type :: symbol_type_e
  hidden :: bool

type_synonym symbol_table_t = "symbol_t list"

text \<open>What ends a compilation: each \<^verbatim>\<open>assembly_error\<close> (a \<^verbatim>\<open>longjmp\<close> back to
  \<^verbatim>\<open>assembler\<close>, which then returns false), the \<^verbatim>\<open>syntax_error\<close>s of the lexer that
  are modelled, and the two ways the process itself stops, \<^verbatim>\<open>fatal\<close> and a failed
  \<^verbatim>\<open>assert\<close>.\<close>

datatype error =
  Redefinition string
| UndefinedSymbol string
| BranchToCall string
| InvalidJumpAddress cell
| SymbolNotFound string
| StringTooLarge string
| NotASymbol string
| Overflow cell
| DoVarNotDefined
| NotAProcedure string
| NotCallable string
| CanOnlyCallOrPush string
| CannotModifyWordBits
| NestedDefinition
| BuiltInAlreadyDefined
| IdentifierTooLarge
| InvalidCharacter
| NestedDefinitionToken
| EndDefinitionOutside
| Fatal
| AssertionFailed

fun symbol_table_lookup :: "symbol_table_t \<Rightarrow> string \<Rightarrow> symbol_t option" where
  "symbol_table_lookup [] i = None"
| "symbol_table_lookup (s # t) i = (if id s = i then Some s else symbol_table_lookup t i)"

definition symbol_table_add ::
  "symbol_table_t \<Rightarrow> symbol_type_e \<Rightarrow> string \<Rightarrow> cell \<Rightarrow> bool \<Rightarrow> error + symbol_table_t" where
  "symbol_table_add t ty i v hid =
     (case symbol_table_lookup t i of
        Some _ \<Rightarrow> Inl (Redefinition i)
      | None \<Rightarrow> Inr (t @ [\<lparr> id = i, val = v, type = ty, hidden = hid \<rparr>]))"

definition MODE_NORMAL :: cell where "MODE_NORMAL = 0"
definition MODE_COMPILE_WORD_HEADER :: cell where "MODE_COMPILE_WORD_HEADER = 1"
definition MODE_OPTIMIZATION_ON :: cell where "MODE_OPTIMIZATION_ON = 2"

record assembler_t =
  in_definition :: bool
  start_defined :: bool
  built_in_words_defined :: bool
  start :: cell
  mode :: cell
  pwd :: cell
  fence :: cell
  do_r_minus_one :: "symbol_t option"
  do_next :: "symbol_t option"
  do_var :: "symbol_t option"
  do_const :: "symbol_t option"

definition update_fence :: "assembler_t \<Rightarrow> cell \<Rightarrow> assembler_t" where
  "update_fence a p = a\<lparr> fence := max (fence a) p \<rparr>"

text \<open>\<^verbatim>\<open>h->core[h->pc++] = instruction\<close>, the last line of \<^verbatim>\<open>generate\<close>.\<close>

definition emit :: "h2_t \<Rightarrow> cell \<Rightarrow> h2_t" where
  "emit h instruction = h\<lparr> core := (core h)(pc h := instruction), pc := pc h + 1 \<rparr>"

text \<open>\<^verbatim>\<open>generate\<close>. In \<^verbatim>\<open>(h->pc - 1) > a->fence\<close> both sides are promoted to \<^verbatim>\<open>int\<close>,
  so the comparison is one of integers; \<^verbatim>\<open>h->pc > a->fence\<close> compares two unsigned
  16-bit values.\<close>

definition generate :: "h2_header \<Rightarrow> h2_t \<Rightarrow> assembler_t \<Rightarrow> cell \<Rightarrow> h2_t \<times> assembler_t" where
  "generate cf h a0 instruction =
    (let a = (if IS_CALL instruction \<or> IS_LITERAL instruction \<or> IS_0BRANCH instruction
                 \<or> IS_BRANCH instruction
              then update_fence a0 (pc h) else a0)
     in if mode a AND MODE_OPTIMIZATION_ON \<noteq> 0 \<and> pc h \<noteq> 0 then
          (let previous = core h (pc h - 1)
           in if uint (pc h) - 1 > uint (fence a) \<and> IS_ALU_OP previous
                 \<and> instruction = CODE_EXIT cf then
                (if previous AND R_TO_PC cf = 0 \<and> previous AND MK_RSTACK DELTA_N1 = 0 then
                   (h\<lparr> core := (core h)(pc h - 1 := previous OR instruction) \<rparr>,
                    update_fence a (pc h - 1))
                 else (emit h instruction, a))
              else if pc h > fence a \<and> IS_CALL previous \<and> instruction = CODE_EXIT cf then
                (h\<lparr> core := (core h)(pc h - 1 := OP_BRANCH OR (previous AND 0x1FFF)) \<rparr>,
                 update_fence a (pc h - 1))
              else (emit h instruction, a))
        else (emit h instruction, a))"

definition generate_literal ::
  "h2_header \<Rightarrow> h2_t \<Rightarrow> assembler_t \<Rightarrow> cell \<Rightarrow> h2_t \<times> assembler_t" where
  "generate_literal cf h a number =
     (if number AND OP_LITERAL \<noteq> 0 then
        (case generate cf h a (OP_LITERAL OR NOT number) of
           (h1, a1) \<Rightarrow> generate cf h1 a1 CODE_INVERT)
      else generate cf h a (OP_LITERAL OR number))"

section \<open>The assembler: the syntax tree\<close>

text \<open>
  \<^verbatim>\<open>node_t\<close>: the type tag with, in this order, \<^verbatim>\<open>bits\<close>, \<^verbatim>\<open>token\<close> and \<^verbatim>\<open>value\<close> where
  the parser sets them, and the children \<^verbatim>\<open>o[]\<close>. A variable, constant or location
  carries the token of its child \<^verbatim>\<open>o[0]\<close>, which is all \<^verbatim>\<open>assemble\<close> reads of it. Null
  children, on which \<^verbatim>\<open>assemble\<close> returns at once, are left out of a statement list; the
  else branch of \<^verbatim>\<open>SYM_IF1\<close> is the one child that is tested for null.
\<close>

datatype node_t =
  SYM_PROGRAM node_t
| SYM_STATEMENTS "node_t list"
| SYM_LABEL token_t
| SYM_BRANCH token_t
| SYM_0BRANCH token_t
| SYM_CALL token_t
| SYM_CONSTANT cell token_t token_t
| SYM_VARIABLE cell token_t token_t
| SYM_LOCATION cell token_t token_t
| SYM_LITERAL token_t
| SYM_STRING token_t
| SYM_INSTRUCTION token_t
| SYM_BEGIN_UNTIL node_t
| SYM_BEGIN_AGAIN node_t
| SYM_BEGIN_WHILE_REPEAT node_t node_t
| SYM_FOR_NEXT node_t
| SYM_FOR_AFT_THEN_NEXT node_t node_t node_t
| SYM_IF1 node_t "node_t option"
| SYM_DEFINITION cell token_t node_t
| SYM_CHAR token_t
| SYM_QUOTE token_t
| SYM_PWD token_t
| SYM_SET token_t token_t
| SYM_PC token_t
| SYM_BUILT_IN
| SYM_MODE token_t
| SYM_ALLOCATE token_t
| SYM_CALL_DEFINITION token_t

definition DEFINE_HIDDEN :: cell where "DEFINE_HIDDEN = 1"
definition DEFINE_IMMEDIATE :: cell where "DEFINE_IMMEDIATE = 2"
definition DEFINE_INLINE :: cell where "DEFINE_INLINE = 4"

text \<open>Reading \<^verbatim>\<open>p.id\<close> or \<^verbatim>\<open>p.number\<close> of a token. Reading \<^verbatim>\<open>p.number\<close> of a token that
  holds no number gives the bits that the union holds, \<open>union_number\<close>, and goes on.
  Reading \<^verbatim>\<open>p.id\<close> of a token that holds no string gives no pointer to a string (a null
  pointer for a keyword, the number for a literal), and following it ends the model with
  \<open>Fatal\<close>.\<close>

definition p_id :: "token_t \<Rightarrow> error + string" where
  "p_id tok = (case tok of
      LEX_IDENTIFIER s \<Rightarrow> Inr s | LEX_LABEL s \<Rightarrow> Inr s | LEX_STRING s \<Rightarrow> Inr s
    | _ \<Rightarrow> Inl Fatal)"

definition p_number :: "h2_header \<Rightarrow> token_t \<Rightarrow> error + cell" where
  "p_number cf tok = (case tok of LEX_LITERAL n \<Rightarrow> Inr n | _ \<Rightarrow> Inr (union_number cf tok))"

definition ebind :: "error + 'a \<Rightarrow> ('a \<Rightarrow> error + 'b) \<Rightarrow> error + 'b" where
  "ebind x f = (case x of Inl e \<Rightarrow> Inl e | Inr v \<Rightarrow> f v)"

section \<open>The assembler: helpers of assemble\<close>

definition here :: "h2_header \<Rightarrow> h2_t \<Rightarrow> assembler_t \<Rightarrow> error + cell \<times> assembler_t" where
  "here cf h a =
     (if unat (pc h) < MAX_PROGRAM cf then Inr (pc h, update_fence a (pc h))
      else Inl AssertionFailed)"

definition hole :: "h2_header \<Rightarrow> h2_t \<Rightarrow> assembler_t \<Rightarrow> error + cell \<times> h2_t \<times> assembler_t" where
  "hole cf h a =
     (if unat (pc h) < MAX_PROGRAM cf then
        ebind (here cf h a) (\<lambda>(_, a'). Inr (pc h, h\<lparr> pc := pc h + 1 \<rparr>, a'))
      else Inl AssertionFailed)"

text \<open>\<^verbatim>\<open>fix\<close> of the source (the name is a keyword here).\<close>

definition fix_cell :: "h2_header \<Rightarrow> h2_t \<Rightarrow> cell \<Rightarrow> cell \<Rightarrow> error + h2_t" where
  "fix_cell cf h hol patch =
     (if unat hol < MAX_PROGRAM cf then Inr (h\<lparr> core := (core h)(hol := patch) \<rparr>)
      else Inl AssertionFailed)"

text \<open>\<^verbatim>\<open>h->core[hole(h, a)] = v\<close>: a hole taken and filled at once.\<close>

definition fill :: "h2_header \<Rightarrow> h2_t \<Rightarrow> assembler_t \<Rightarrow> cell \<Rightarrow> error + h2_t \<times> assembler_t" where
  "fill cf h a v =
     ebind (hole cf h a) (\<lambda>(hol, h', a'). Inr (h'\<lparr> core := (core h')(hol := v) \<rparr>, a'))"

text \<open>\<^verbatim>\<open>pack_16\<close> takes two \<^verbatim>\<open>char\<close>, converted to \<^verbatim>\<open>uint16_t\<close>: with a signed \<^verbatim>\<open>char\<close>
  (the usual case, and the one modelled) a byte from 128 on is sign-extended.\<close>

definition pack_16 :: "8 word \<Rightarrow> 8 word \<Rightarrow> cell" where
  "pack_16 lb hb = push_bit 8 (scast hb) OR scast lb"

definition c_str :: "string \<Rightarrow> nat \<Rightarrow> 8 word" where
  "c_str s i = (if i < length s then of_nat (of_char (s ! i)) else 0)"

text \<open>The loop of \<^verbatim>\<open>pack_string\<close>, \<^verbatim>\<open>for(i = 1; i < l; i += 2)\<close>, over the positions it
  visits.\<close>

fun pack_pairs :: "h2_header \<Rightarrow> string \<Rightarrow> nat list \<Rightarrow> h2_t \<Rightarrow> assembler_t \<Rightarrow> error + h2_t \<times> assembler_t" where
  "pack_pairs cf s [] h a = Inr (h, a)"
| "pack_pairs cf s (i # rest) h a =
     ebind (fill cf h a (pack_16 (c_str s i) (c_str s (i + 1))))
       (\<lambda>(h', a'). pack_pairs cf s rest h' a')"

definition pack_string ::
  "h2_header \<Rightarrow> h2_t \<Rightarrow> assembler_t \<Rightarrow> string \<Rightarrow> error + cell \<times> h2_t \<times> assembler_t" where
  "pack_string cf h a s =
     (let l = length s; r = pc h
      in if l > 255 then Inl (StringTooLarge s)
         else ebind (fill cf h a (pack_16 (of_nat l) (c_str s 0))) (\<lambda>(h1, a1).
              ebind (pack_pairs cf s (filter odd [1..<l]) h1 a1) (\<lambda>(h2, a2).
              ebind (here cf h2 a2) (\<lambda>(_, a3). Inr (r, h2, a3)))))"

definition symbol_special :: "h2_t \<Rightarrow> assembler_t \<Rightarrow> string \<Rightarrow> error + cell" where
  "symbol_special h a i =
     (if i = ''$pc'' then Inr (push_bit 1 (pc h))
      else if i = ''$pwd'' then Inr (pwd a)
      else Inl (NotASymbol i))"

definition literal_or_symbol_lookup :: "token_t \<Rightarrow> symbol_table_t \<Rightarrow> error + cell" where
  "literal_or_symbol_lookup tok t =
     (case tok of
        LEX_LITERAL n \<Rightarrow> Inr n
      | LEX_IDENTIFIER i \<Rightarrow>
          (case symbol_table_lookup t i of
             None \<Rightarrow> Inl (SymbolNotFound i)
           | Some s \<Rightarrow> Inr (val s))
      | _ \<Rightarrow> Inl AssertionFailed)"

text \<open>The three kinds of jump that \<^verbatim>\<open>generate_jump\<close> is called with.\<close>

datatype jump_e = JUMP_BRANCH | JUMP_0BRANCH | JUMP_CALL

definition jump_symbol :: "symbol_table_t \<Rightarrow> string \<Rightarrow> jump_e \<Rightarrow> error + cell" where
  "jump_symbol t i ty =
     (case symbol_table_lookup t i of
        None \<Rightarrow> Inl (UndefinedSymbol i)
      | Some s \<Rightarrow>
          if type s = SYMBOL_TYPE_CALL \<and> ty \<noteq> JUMP_CALL then Inl (BranchToCall i)
          else Inr (val s))"

definition generate_jump ::
  "h2_header \<Rightarrow> h2_t \<Rightarrow> assembler_t \<Rightarrow> symbol_table_t \<Rightarrow> token_t \<Rightarrow> jump_e
     \<Rightarrow> error + h2_t \<times> assembler_t" where
  "generate_jump cf h a t tok ty =
     ebind
       (case tok of
          LEX_IDENTIFIER i \<Rightarrow> jump_symbol t i ty
        | LEX_STRING i \<Rightarrow> jump_symbol t i ty
        | LEX_LITERAL n \<Rightarrow> Inr n
        | _ \<Rightarrow> Inl Fatal)
       (\<lambda>addr.
          if unat addr > MAX_PROGRAM cf then Inl (InvalidJumpAddress addr)
          else Inr (generate cf h a
                 ((case ty of JUMP_BRANCH \<Rightarrow> OP_BRANCH | JUMP_0BRANCH \<Rightarrow> OP_0BRANCH
                    | JUMP_CALL \<Rightarrow> OP_CALL) OR addr)))"

definition lexer_to_alu_op :: "h2_header \<Rightarrow> token_t \<Rightarrow> error + cell" where
  "lexer_to_alu_op cf tok =
     (case tok of
        LEX_INSTRUCTION m \<Rightarrow>
          (case map_of (X_MACRO_INSTRUCTIONS cf) m of
             Some (_, instruction) \<Rightarrow> Inr instruction
           | None \<Rightarrow> Inl Fatal)
      | _ \<Rightarrow> Inl AssertionFailed)"

definition generate_loop_decrement ::
  "h2_header \<Rightarrow> h2_t \<Rightarrow> assembler_t \<Rightarrow> symbol_table_t \<Rightarrow> h2_t \<times> assembler_t" where
  "generate_loop_decrement cf h a0 t =
     (let a = a0\<lparr> do_r_minus_one :=
                 (case do_r_minus_one a0 of Some s \<Rightarrow> Some s
                  | None \<Rightarrow> symbol_table_lookup t ''r1-'') \<rparr>
      in case do_r_minus_one a of
           Some s \<Rightarrow>
             if mode a AND MODE_OPTIMIZATION_ON \<noteq> 0 then generate cf h a (OP_CALL OR val s)
             else (case generate cf h a (CODE_FROMR cf) of (h1, a1) \<Rightarrow>
                   case generate cf h1 a1 (CODE_T_N1 cf) of (h2, a2) \<Rightarrow>
                   generate cf h2 a2 (CODE_TOR cf))
         | None \<Rightarrow>
             (case generate cf h a (CODE_FROMR cf) of (h1, a1) \<Rightarrow>
              case generate cf h1 a1 (CODE_T_N1 cf) of (h2, a2) \<Rightarrow>
              generate cf h2 a2 (CODE_TOR cf)))"

section \<open>The assembler: the cases of assemble that do not recurse\<close>

type_synonym asm_state = "h2_t \<times> assembler_t \<times> symbol_table_t"

text \<open>The header of a word: a hole holding \<open>v\<close> (the previous \<^verbatim>\<open>pwd\<close>, with the word's
  bits), \<^verbatim>\<open>pwd\<close> set to the byte address of that hole, then the packed name.\<close>

definition word_header ::
  "h2_header \<Rightarrow> h2_t \<Rightarrow> assembler_t \<Rightarrow> cell \<Rightarrow> string \<Rightarrow> error + h2_t \<times> assembler_t" where
  "word_header cf h a v name =
     ebind (hole cf h a) (\<lambda>(hole1, h1, a1).
     ebind (fix_cell cf h1 hole1 v) (\<lambda>h2.
     ebind (pack_string cf h2 (a1\<lparr> pwd := push_bit 1 hole1 \<rparr>) name) (\<lambda>(_, h3, a3).
     Inr (h3, a3))))"

definition assemble_label :: "h2_header \<Rightarrow> token_t \<Rightarrow> asm_state \<Rightarrow> error + asm_state" where
  "assemble_label cf tok s = (case s of (h, a, t) \<Rightarrow>
     ebind (p_id tok) (\<lambda>i.
     ebind (here cf h a) (\<lambda>(p, a1).
     ebind (symbol_table_add t SYMBOL_TYPE_LABEL i p False) (\<lambda>t1.
     Inr (h, a1, t1)))))"

definition assemble_jump ::
  "h2_header \<Rightarrow> token_t \<Rightarrow> jump_e \<Rightarrow> asm_state \<Rightarrow> error + asm_state" where
  "assemble_jump cf tok ty s = (case s of (h, a, t) \<Rightarrow>
     ebind (generate_jump cf h a t tok ty) (\<lambda>(h1, a1). Inr (h1, a1, t)))"

definition header_wanted :: "assembler_t \<Rightarrow> cell \<Rightarrow> bool" where
  "header_wanted a bits \<longleftrightarrow>
     mode a AND MODE_COMPILE_WORD_HEADER \<noteq> 0 \<and> built_in_words_defined a
     \<and> bits AND DEFINE_HIDDEN = 0"

definition cached :: "symbol_t option \<Rightarrow> symbol_table_t \<Rightarrow> string \<Rightarrow> symbol_t option" where
  "cached c t name = (case c of Some s \<Rightarrow> Some s | None \<Rightarrow> symbol_table_lookup t name)"

definition assemble_constant ::
  "h2_header \<Rightarrow> cell \<Rightarrow> token_t \<Rightarrow> token_t \<Rightarrow> asm_state \<Rightarrow> error + asm_state" where
  "assemble_constant cf bits tok vtok s = (case s of (h, a, t) \<Rightarrow>
     ebind
       (if header_wanted a bits then
          (let a0 = a\<lparr> do_const := cached (do_const a) t ''doConst'' \<rparr>
           in case do_const a0 of
                None \<Rightarrow> Inl AssertionFailed
              | Some dc \<Rightarrow>
                  ebind (p_id tok) (\<lambda>i.
                  ebind (word_header cf h a0 (pwd a0) i) (\<lambda>(h1, a1).
                  case generate cf h1 a1 (OP_CALL OR val dc) of (h2, a2) \<Rightarrow>
                  ebind (hole cf h2 a2) (\<lambda>(hole1, h3, a3).
                  ebind (p_number cf vtok) (\<lambda>num.
                  ebind (fix_cell cf h3 hole1 num) (\<lambda>h4. Inr (h4, a3)))))))
        else Inr (h, a))
       (\<lambda>(h5, a5).
          ebind (p_id tok) (\<lambda>i.
          ebind (p_number cf vtok) (\<lambda>num.
          ebind (symbol_table_add t SYMBOL_TYPE_CONSTANT i num False) (\<lambda>t1.
          Inr (h5, a5, t1))))))"

text \<open>The part of \<^verbatim>\<open>case SYM_VARIABLE\<close> before it falls through to
  \<^verbatim>\<open>case SYM_LOCATION\<close>.\<close>

definition assemble_variable ::
  "h2_header \<Rightarrow> cell \<Rightarrow> token_t \<Rightarrow> asm_state \<Rightarrow> error + asm_state" where
  "assemble_variable cf bits tok s = (case s of (h, a, t) \<Rightarrow>
     if header_wanted a bits then
       (let a0 = a\<lparr> do_var := cached (do_var a) t ''doVar'' \<rparr>
        in case do_var a0 of
             None \<Rightarrow> Inl AssertionFailed
           | Some dv \<Rightarrow>
               ebind (p_id tok) (\<lambda>i.
               ebind (word_header cf h a0 (pwd a0) i) (\<lambda>(h1, a1).
               case generate cf h1 a1 (OP_CALL OR val dv) of (h2, a2) \<Rightarrow> Inr (h2, a2, t))))
     else if bits AND DEFINE_HIDDEN = 0 then Inl DoVarNotDefined
     else Inr (h, a, t))"

definition assemble_location ::
  "h2_header \<Rightarrow> bool \<Rightarrow> token_t \<Rightarrow> token_t \<Rightarrow> asm_state \<Rightarrow> error + asm_state" where
  "assemble_location cf is_location tok vtok s = (case s of (h, a, t) \<Rightarrow>
     ebind (here cf h a) (\<lambda>(_, a1).
     ebind
       (case vtok of
          LEX_LITERAL num \<Rightarrow>
            ebind (hole cf h a1) (\<lambda>(hole1, h2, a2).
            ebind (fix_cell cf h2 hole1 num) (\<lambda>h3. Inr (hole1, h3, a2)))
        | LEX_STRING str \<Rightarrow> pack_string cf h a1 str
        | _ \<Rightarrow> Inl AssertionFailed)
       (\<lambda>(hole1, h4, a4).
          ebind (p_id tok) (\<lambda>i.
          ebind (symbol_table_add t SYMBOL_TYPE_VARIABLE i (push_bit 1 hole1) is_location) (\<lambda>t1.
          Inr (h4, a4, t1))))))"

definition assemble_quote :: "h2_header \<Rightarrow> token_t \<Rightarrow> asm_state \<Rightarrow> error + asm_state" where
  "assemble_quote cf tok s = (case s of (h, a, t) \<Rightarrow>
     ebind (p_id tok) (\<lambda>i.
       case symbol_table_lookup t i of
         None \<Rightarrow> Inl (NotAProcedure i)
       | Some sy \<Rightarrow>
           if type sy \<noteq> SYMBOL_TYPE_CALL \<and> type sy \<noteq> SYMBOL_TYPE_LABEL then Inl (NotAProcedure i)
           else (case generate_literal cf h a (push_bit 1 (val sy)) of (h1, a1) \<Rightarrow> Inr (h1, a1, t))))"

definition assemble_call_definition ::
  "h2_header \<Rightarrow> token_t \<Rightarrow> asm_state \<Rightarrow> error + asm_state" where
  "assemble_call_definition cf tok s = (case s of (h, a, t) \<Rightarrow>
     ebind (p_id tok) (\<lambda>i.
       case symbol_table_lookup t i of
         None \<Rightarrow> Inl (NotCallable i)
       | Some sy \<Rightarrow>
           if type sy = SYMBOL_TYPE_CALL then
             (case generate cf h a (OP_CALL OR val sy) of (h1, a1) \<Rightarrow> Inr (h1, a1, t))
           else if type sy = SYMBOL_TYPE_CONSTANT \<or> type sy = SYMBOL_TYPE_VARIABLE then
             (case generate_literal cf h a (val sy) of (h1, a1) \<Rightarrow> Inr (h1, a1, t))
           else Inl (CanOnlyCallOrPush (id sy))))"

definition assemble_char :: "h2_header \<Rightarrow> token_t \<Rightarrow> asm_state \<Rightarrow> error + asm_state" where
  "assemble_char cf tok s = (case s of (h, a, t) \<Rightarrow>
     ebind (p_id tok) (\<lambda>i.
       case generate cf h a (OP_LITERAL OR scast (c_str i 0)) of (h1, a1) \<Rightarrow> Inr (h1, a1, t)))"

definition assemble_set ::
  "h2_header \<Rightarrow> token_t \<Rightarrow> token_t \<Rightarrow> asm_state \<Rightarrow> error + asm_state" where
  "assemble_set cf tok vtok s = (case s of (h, a, t) \<Rightarrow>
     ebind (literal_or_symbol_lookup tok t) (\<lambda>location.
     ebind
       (case vtok of
          LEX_LITERAL n \<Rightarrow> Inr n
        | _ \<Rightarrow>
          ebind (p_id vtok) (\<lambda>i.
            case symbol_table_lookup t i of
              Some l \<Rightarrow> Inr (if type l = SYMBOL_TYPE_CALL then push_bit 1 (val l) else val l)
            | None \<Rightarrow> symbol_special h a i))
       (\<lambda>v.
          ebind (fix_cell cf h (drop_bit 1 location) v) (\<lambda>h1. Inr (h1, a, t)))))"

definition assemble_pwd :: "token_t \<Rightarrow> asm_state \<Rightarrow> error + asm_state" where
  "assemble_pwd tok s = (case s of (h, a, t) \<Rightarrow>
     ebind (literal_or_symbol_lookup tok t) (\<lambda>v. Inr (h, a\<lparr> pwd := v \<rparr>, t)))"

definition assemble_pc :: "token_t \<Rightarrow> asm_state \<Rightarrow> error + asm_state" where
  "assemble_pc tok s = (case s of (h, a, t) \<Rightarrow>
     ebind (literal_or_symbol_lookup tok t) (\<lambda>v. Inr (h\<lparr> pc := v \<rparr>, update_fence a v, t)))"

definition assemble_mode :: "h2_header \<Rightarrow> token_t \<Rightarrow> asm_state \<Rightarrow> error + asm_state" where
  "assemble_mode cf tok s = (case s of (h, a, t) \<Rightarrow>
     ebind (p_number cf tok) (\<lambda>v. Inr (h, a\<lparr> mode := v \<rparr>, t)))"

definition assemble_allocate :: "token_t \<Rightarrow> asm_state \<Rightarrow> error + asm_state" where
  "assemble_allocate tok s = (case s of (h, a, t) \<Rightarrow>
     ebind (literal_or_symbol_lookup tok t) (\<lambda>v.
       (let p = pc h + drop_bit 1 v in Inr (h\<lparr> pc := p \<rparr>, update_fence a p, t))))"

definition assemble_instruction ::
  "h2_header \<Rightarrow> token_t \<Rightarrow> asm_state \<Rightarrow> error + asm_state" where
  "assemble_instruction cf tok s = (case s of (h, a, t) \<Rightarrow>
     ebind (lexer_to_alu_op cf tok) (\<lambda>instruction.
       case generate cf h a instruction of (h1, a1) \<Rightarrow> Inr (h1, a1, t)))"

definition assemble_literal :: "h2_header \<Rightarrow> token_t \<Rightarrow> asm_state \<Rightarrow> error + asm_state" where
  "assemble_literal cf tok s = (case s of (h, a, t) \<Rightarrow>
     ebind (p_number cf tok) (\<lambda>n.
       case generate_literal cf h a n of (h1, a1) \<Rightarrow> Inr (h1, a1, t)))"

text \<open>\<^verbatim>\<open>built_in_words\<close>: one row per instruction of \<^verbatim>\<open>X_MACRO_INSTRUCTIONS\<close>, then the
  three words the assembler itself calls. The terminating row, whose name is null, ends
  the loop and is not part of the list.\<close>

record built_in_words_t =
  name :: string
  len :: nat
  inline_bit :: bool
  bw_hidden :: bool
  compile :: bool
  bw_code :: "cell list"

definition built_in_words :: "h2_header \<Rightarrow> built_in_words_t list" where
  "built_in_words cf =
     map (\<lambda>(str, define, instruction).
            \<lparr> name = str, len = 1, inline_bit = True, bw_hidden = False, compile = define,
              bw_code = [instruction] \<rparr>) (X_MACRO_INSTRUCTIONS cf)
     @ [ \<lparr> name = ''doVar'', len = 1, inline_bit = False, bw_hidden = True, compile = True,
           bw_code = [CODE_FROMR cf] \<rparr>,
         \<lparr> name = ''doConst'', len = 2, inline_bit = False, bw_hidden = True, compile = True,
           bw_code = [CODE_FROMR cf, CODE_LOAD cf] \<rparr>,
         \<lparr> name = ''r1-'', len = 5, inline_bit = False, bw_hidden = True, compile = True,
           bw_code = [CODE_FROMR cf, CODE_FROMR cf, CODE_T_N1 cf, CODE_TOR cf, CODE_TOR cf] \<rparr> ]"

fun generate_all :: "h2_header \<Rightarrow> cell list \<Rightarrow> h2_t \<Rightarrow> assembler_t \<Rightarrow> h2_t \<times> assembler_t" where
  "generate_all cf [] h a = (h, a)"
| "generate_all cf (c # cs) h a = (case generate cf h a c of (h1, a1) \<Rightarrow> generate_all cf cs h1 a1)"

text \<open>One pass of the loop of \<^verbatim>\<open>case SYM_BUILT_IN\<close>.\<close>

definition built_in_word :: "h2_header \<Rightarrow> built_in_words_t \<Rightarrow> asm_state \<Rightarrow> error + asm_state" where
  "built_in_word cf b s = (case s of (h, a, t) \<Rightarrow>
     if \<not> compile b then Inr (h, a, t)
     else
       ebind
         (if \<not> bw_hidden b then
            word_header cf h a
              (if inline_bit b then pwd a OR push_bit 13 DEFINE_INLINE else pwd a) (name b)
          else Inr (h, a))
         (\<lambda>(h1, a1).
            ebind (here cf h1 a1) (\<lambda>(p, a2).
            ebind (symbol_table_add t SYMBOL_TYPE_CALL (name b) p (bw_hidden b)) (\<lambda>t1.
              case generate_all cf (take (len b) (bw_code b)) h1 a2 of (h3, a3) \<Rightarrow>
              case generate cf h3 a3 (CODE_EXIT cf) of (h4, a4) \<Rightarrow> Inr (h4, a4, t1)))))"

fun built_in_loop :: "h2_header \<Rightarrow> built_in_words_t list \<Rightarrow> asm_state \<Rightarrow> error + asm_state" where
  "built_in_loop cf [] s = Inr s"
| "built_in_loop cf (b # bs) s =
     (case built_in_word cf b s of Inl e \<Rightarrow> Inl e | Inr s1 \<Rightarrow> built_in_loop cf bs s1)"

definition assemble_built_in :: "h2_header \<Rightarrow> asm_state \<Rightarrow> error + asm_state" where
  "assemble_built_in cf s = (case s of (h, a, t) \<Rightarrow>
     if mode a AND MODE_COMPILE_WORD_HEADER = 0 then Inr (h, a, t)
     else if built_in_words_defined a then Inl BuiltInAlreadyDefined
     else built_in_loop cf (built_in_words cf) (h, a\<lparr> built_in_words_defined := True \<rparr>, t))"

text \<open>The two ends of \<^verbatim>\<open>case SYM_FOR_NEXT\<close>, after the body: with \<^verbatim>\<open>doNext\<close>, and
  without.\<close>

definition for_next_tail ::
  "h2_header \<Rightarrow> symbol_t option \<Rightarrow> cell \<Rightarrow> asm_state \<Rightarrow> error + asm_state" where
  "for_next_tail cf dn hole1 s = (case s of (h, a, t) \<Rightarrow>
     case dn of
       Some sy \<Rightarrow>
         (case generate cf h a (OP_CALL OR val sy) of (h1, a1) \<Rightarrow>
          case generate cf h1 a1 (push_bit 1 hole1) of (h2, a2) \<Rightarrow> Inr (h2, a2, t))
     | None \<Rightarrow>
         (case generate cf h a (CODE_RAT cf) of (h1, a1) \<Rightarrow>
          ebind (hole cf h1 a1) (\<lambda>(hole2, h2, a2).
            case generate_loop_decrement cf h2 a2 t of (h3, a3) \<Rightarrow>
            case generate cf h3 a3 (OP_BRANCH OR hole1) of (h4, a4) \<Rightarrow>
            ebind (here cf h4 a4) (\<lambda>(p, a5).
            ebind (fix_cell cf h4 hole2 (OP_0BRANCH OR p)) (\<lambda>h6.
              case generate cf h6 a5 (CODE_RDROP cf) of (h7, a7) \<Rightarrow> Inr (h7, a7, t))))))"

text \<open>\<^verbatim>\<open>fix(h, hole, op | here(h, a))\<close>.\<close>

definition fix_here :: "h2_header \<Rightarrow> cell \<Rightarrow> cell \<Rightarrow> asm_state \<Rightarrow> error + asm_state" where
  "fix_here cf hol opc s = (case s of (h, a, t) \<Rightarrow>
     ebind (here cf h a) (\<lambda>(p, a1).
     ebind (fix_cell cf h hol (opc OR p)) (\<lambda>h1. Inr (h1, a1, t))))"

text \<open>The start of \<^verbatim>\<open>case SYM_DEFINITION\<close>, up to the test for a nested definition.\<close>

definition definition_head ::
  "h2_header \<Rightarrow> cell \<Rightarrow> token_t \<Rightarrow> asm_state \<Rightarrow> error + asm_state" where
  "definition_head cf bits0 tok s = (case s of (h, a, t) \<Rightarrow>
     if bits0 \<noteq> 0 \<and> mode a AND MODE_COMPILE_WORD_HEADER = 0 then Inl CannotModifyWordBits
     else
       ebind (p_id tok) (\<lambda>i.
       ebind
         (if mode a AND MODE_COMPILE_WORD_HEADER \<noteq> 0 \<and> bits0 AND DEFINE_HIDDEN = 0 then
            (let bits = bits0 AND (DEFINE_IMMEDIATE OR DEFINE_INLINE)
             in ebind (word_header cf h a (pwd a OR push_bit 13 bits) i)
                  (\<lambda>(h1, a1). Inr (bits, h1, a1)))
          else Inr (bits0, h, a))
         (\<lambda>(bits, h1, a1).
            ebind (here cf h1 a1) (\<lambda>(p, a2).
            ebind (symbol_table_add t SYMBOL_TYPE_CALL i p (bits AND DEFINE_HIDDEN \<noteq> 0)) (\<lambda>t1.
              if in_definition a2 then Inl NestedDefinition
              else Inr (h1, a2\<lparr> in_definition := True \<rparr>, t1))))))"

section \<open>The assembler: assemble\<close>

fun assemble :: "h2_header \<Rightarrow> node_t \<Rightarrow> asm_state \<Rightarrow> error + asm_state"
  and assemble_list :: "h2_header \<Rightarrow> node_t list \<Rightarrow> asm_state \<Rightarrow> error + asm_state" where
  "assemble_list cf [] s = Inr s"
| "assemble_list cf (n # ns) s =
     (case assemble cf n s of Inl e \<Rightarrow> Inl e | Inr s1 \<Rightarrow> assemble_list cf ns s1)"
| "assemble cf (SYM_PROGRAM n0) (h, a, t) =
     (if unat (pc h) > MAX_PROGRAM cf then Inl (Overflow (pc h))
      else assemble cf n0 (h, a, t))"
| "assemble cf (SYM_STATEMENTS ns) (h, a, t) =
     (if unat (pc h) > MAX_PROGRAM cf then Inl (Overflow (pc h))
      else assemble_list cf ns (h, a, t))"
| "assemble cf (SYM_LABEL tok) (h, a, t) =
     (if unat (pc h) > MAX_PROGRAM cf then Inl (Overflow (pc h))
      else assemble_label cf tok (h, a, t))"
| "assemble cf (SYM_BRANCH tok) (h, a, t) =
     (if unat (pc h) > MAX_PROGRAM cf then Inl (Overflow (pc h))
      else assemble_jump cf tok JUMP_BRANCH (h, a, t))"
| "assemble cf (SYM_0BRANCH tok) (h, a, t) =
     (if unat (pc h) > MAX_PROGRAM cf then Inl (Overflow (pc h))
      else assemble_jump cf tok JUMP_0BRANCH (h, a, t))"
| "assemble cf (SYM_CALL tok) (h, a, t) =
     (if unat (pc h) > MAX_PROGRAM cf then Inl (Overflow (pc h))
      else assemble_jump cf tok JUMP_CALL (h, a, t))"
| "assemble cf (SYM_CONSTANT bits tok vtok) (h, a, t) =
     (if unat (pc h) > MAX_PROGRAM cf then Inl (Overflow (pc h))
      else assemble_constant cf bits tok vtok (h, a, t))"
| "assemble cf (SYM_VARIABLE bits tok vtok) (h, a, t) =
     (if unat (pc h) > MAX_PROGRAM cf then Inl (Overflow (pc h))
      else ebind (assemble_variable cf bits tok (h, a, t)) (assemble_location cf False tok vtok))"
| "assemble cf (SYM_LOCATION bits tok vtok) (h, a, t) =
     (if unat (pc h) > MAX_PROGRAM cf then Inl (Overflow (pc h))
      else assemble_location cf True tok vtok (h, a, t))"
| "assemble cf (SYM_QUOTE tok) (h, a, t) =
     (if unat (pc h) > MAX_PROGRAM cf then Inl (Overflow (pc h))
      else assemble_quote cf tok (h, a, t))"
| "assemble cf (SYM_LITERAL tok) (h, a, t) =
     (if unat (pc h) > MAX_PROGRAM cf then Inl (Overflow (pc h))
      else assemble_literal cf tok (h, a, t))"
| "assemble cf (SYM_INSTRUCTION tok) (h, a, t) =
     (if unat (pc h) > MAX_PROGRAM cf then Inl (Overflow (pc h))
      else assemble_instruction cf tok (h, a, t))"
| "assemble cf (SYM_BEGIN_AGAIN n0) (h, a, t) =
     (if unat (pc h) > MAX_PROGRAM cf then Inl (Overflow (pc h))
      else case here cf h a of Inl e \<Rightarrow> Inl e | Inr (hole1, a1) \<Rightarrow>
           case assemble cf n0 (h, a1, t) of Inl e \<Rightarrow> Inl e | Inr (h2, a2, t2) \<Rightarrow>
           case generate cf h2 a2 (OP_BRANCH OR hole1) of (h3, a3) \<Rightarrow> Inr (h3, a3, t2))"
| "assemble cf (SYM_BEGIN_UNTIL n0) (h, a, t) =
     (if unat (pc h) > MAX_PROGRAM cf then Inl (Overflow (pc h))
      else case here cf h a of Inl e \<Rightarrow> Inl e | Inr (hole1, a1) \<Rightarrow>
           case assemble cf n0 (h, a1, t) of Inl e \<Rightarrow> Inl e | Inr (h2, a2, t2) \<Rightarrow>
           case generate cf h2 a2 (OP_0BRANCH OR hole1) of (h3, a3) \<Rightarrow> Inr (h3, a3, t2))"
| "assemble cf (SYM_FOR_NEXT n0) (h, a, t) =
     (if unat (pc h) > MAX_PROGRAM cf then Inl (Overflow (pc h))
      else
        (let s = cached (do_next a) t ''doNext'';
             dn = (if s \<noteq> None \<and> mode a AND MODE_OPTIMIZATION_ON \<noteq> 0 then s else None)
         in case generate cf h a (CODE_TOR cf) of (h1, a1) \<Rightarrow>
            case here cf h1 a1 of Inl e \<Rightarrow> Inl e | Inr (hole1, a2) \<Rightarrow>
            case assemble cf n0 (h1, a2, t) of Inl e \<Rightarrow> Inl e | Inr s3 \<Rightarrow>
            for_next_tail cf dn hole1 s3))"
| "assemble cf (SYM_FOR_AFT_THEN_NEXT n0 n1 n2) (h, a, t) =
     (if unat (pc h) > MAX_PROGRAM cf then Inl (Overflow (pc h))
      else
        case generate cf h a (CODE_TOR cf) of (h1, a1) \<Rightarrow>
        case assemble cf n0 (h1, a1, t) of Inl e \<Rightarrow> Inl e | Inr (h2, a2, t2) \<Rightarrow>
        case hole cf h2 a2 of Inl e \<Rightarrow> Inl e | Inr (hole1, h3, a3) \<Rightarrow>
        case generate cf h3 a3 (CODE_RAT cf) of (h4, a4) \<Rightarrow>
        case generate_loop_decrement cf h4 a4 t2 of (h5, a5) \<Rightarrow>
        case hole cf h5 a5 of Inl e \<Rightarrow> Inl e | Inr (hole2, h6, a6) \<Rightarrow>
        case assemble cf n1 (h6, a6, t2) of Inl e \<Rightarrow> Inl e | Inr s7 \<Rightarrow>
        case fix_here cf hole1 OP_BRANCH s7 of Inl e \<Rightarrow> Inl e | Inr s8 \<Rightarrow>
        case assemble cf n2 s8 of Inl e \<Rightarrow> Inl e | Inr (h9, a9, t9) \<Rightarrow>
        case generate cf h9 a9 (OP_BRANCH OR (hole1 + 1)) of (h10, a10) \<Rightarrow>
        case fix_here cf hole2 OP_0BRANCH (h10, a10, t9) of Inl e \<Rightarrow> Inl e
        | Inr (h11, a11, t11) \<Rightarrow>
        case generate cf h11 a11 (CODE_RDROP cf) of (h12, a12) \<Rightarrow> Inr (h12, a12, t11))"
| "assemble cf (SYM_BEGIN_WHILE_REPEAT n0 n1) (h, a, t) =
     (if unat (pc h) > MAX_PROGRAM cf then Inl (Overflow (pc h))
      else
        case here cf h a of Inl e \<Rightarrow> Inl e | Inr (hole1, a1) \<Rightarrow>
        case assemble cf n0 (h, a1, t) of Inl e \<Rightarrow> Inl e | Inr (h2, a2, t2) \<Rightarrow>
        case hole cf h2 a2 of Inl e \<Rightarrow> Inl e | Inr (hole2, h3, a3) \<Rightarrow>
        case assemble cf n1 (h3, a3, t2) of Inl e \<Rightarrow> Inl e | Inr (h4, a4, t4) \<Rightarrow>
        case generate cf h4 a4 (OP_BRANCH OR hole1) of (h5, a5) \<Rightarrow>
        fix_here cf hole2 OP_0BRANCH (h5, a5, t4))"
| "assemble cf (SYM_IF1 n0 e1) (h, a, t) =
     (if unat (pc h) > MAX_PROGRAM cf then Inl (Overflow (pc h))
      else
        case hole cf h a of Inl e \<Rightarrow> Inl e | Inr (hole1, h1, a1) \<Rightarrow>
        case assemble cf n0 (h1, a1, t) of Inl e \<Rightarrow> Inl e | Inr (h2, a2, t2) \<Rightarrow>
        (case e1 of
           Some n1 \<Rightarrow>
             (case hole cf h2 a2 of Inl e \<Rightarrow> Inl e | Inr (hole2, h3, a3) \<Rightarrow>
              case fix_cell cf h3 hole1 (OP_0BRANCH OR (hole2 + 1)) of Inl e \<Rightarrow> Inl e
              | Inr h4 \<Rightarrow>
              case assemble cf n1 (h4, a3, t2) of Inl e \<Rightarrow> Inl e | Inr s5 \<Rightarrow>
              fix_here cf hole2 OP_BRANCH s5)
         | None \<Rightarrow> fix_here cf hole1 OP_0BRANCH (h2, a2, t2)))"
| "assemble cf (SYM_CALL_DEFINITION tok) (h, a, t) =
     (if unat (pc h) > MAX_PROGRAM cf then Inl (Overflow (pc h))
      else assemble_call_definition cf tok (h, a, t))"
| "assemble cf (SYM_DEFINITION bits tok n0) (h, a, t) =
     (if unat (pc h) > MAX_PROGRAM cf then Inl (Overflow (pc h))
      else
        case definition_head cf bits tok (h, a, t) of Inl e \<Rightarrow> Inl e | Inr s1 \<Rightarrow>
        case assemble cf n0 s1 of Inl e \<Rightarrow> Inl e | Inr (h2, a2, t2) \<Rightarrow>
        case generate cf h2 a2 (CODE_EXIT cf) of (h3, a3) \<Rightarrow>
        Inr (h3, a3\<lparr> in_definition := False \<rparr>, t2))"
| "assemble cf (SYM_CHAR tok) (h, a, t) =
     (if unat (pc h) > MAX_PROGRAM cf then Inl (Overflow (pc h))
      else assemble_char cf tok (h, a, t))"
| "assemble cf (SYM_SET tok vtok) (h, a, t) =
     (if unat (pc h) > MAX_PROGRAM cf then Inl (Overflow (pc h))
      else assemble_set cf tok vtok (h, a, t))"
| "assemble cf (SYM_PWD tok) (h, a, t) =
     (if unat (pc h) > MAX_PROGRAM cf then Inl (Overflow (pc h))
      else assemble_pwd tok (h, a, t))"
| "assemble cf (SYM_PC tok) (h, a, t) =
     (if unat (pc h) > MAX_PROGRAM cf then Inl (Overflow (pc h))
      else assemble_pc tok (h, a, t))"
| "assemble cf (SYM_MODE tok) (h, a, t) =
     (if unat (pc h) > MAX_PROGRAM cf then Inl (Overflow (pc h))
      else assemble_mode cf tok (h, a, t))"
| "assemble cf (SYM_ALLOCATE tok) (h, a, t) =
     (if unat (pc h) > MAX_PROGRAM cf then Inl (Overflow (pc h))
      else assemble_allocate tok (h, a, t))"
| "assemble cf SYM_BUILT_IN (h, a, t) =
     (if unat (pc h) > MAX_PROGRAM cf then Inl (Overflow (pc h))
      else assemble_built_in cf (h, a, t))"
| "assemble cf (SYM_STRING tok) (h, a, t) =
     (if unat (pc h) > MAX_PROGRAM cf then Inl (Overflow (pc h))
      else Inl Fatal)"

text \<open>\<^verbatim>\<open>code\<close>: a fresh machine, the fence at its \<open>pc\<close>, and the symbol table the caller
  gives (empty when it gives none). On an error there is no image.\<close>

definition code :: "h2_header \<Rightarrow> node_t \<Rightarrow> symbol_table_t \<Rightarrow> error + h2_t" where
  "code cf n symbols =
     (let h = h2_new cf (START_ADDR cf);
          a = \<lparr> in_definition = False, start_defined = False, built_in_words_defined = False,
                start = 0, mode = 0, pwd = 0, fence = pc h,
                do_r_minus_one = None, do_next = None, do_var = None, do_const = None \<rparr>
      in case assemble cf n (h, a, symbols) of Inl e \<Rightarrow> Inl e | Inr (h', _, _) \<Rightarrow> Inr h')"

section \<open>The lexer: numbers and bare words\<close>

text \<open>The character classes of \<^verbatim>\<open>ctype.h\<close>, in the C locale.\<close>

definition isdigit :: "char \<Rightarrow> bool" where
  "isdigit c \<longleftrightarrow> 48 \<le> (of_char c :: nat) \<and> (of_char c :: nat) \<le> 57"

definition isxdigit :: "char \<Rightarrow> bool" where
  "isxdigit c \<longleftrightarrow> isdigit c \<or> (65 \<le> (of_char c :: nat) \<and> (of_char c :: nat) \<le> 70)
     \<or> (97 \<le> (of_char c :: nat) \<and> (of_char c :: nat) \<le> 102)"

definition isgraph :: "char \<Rightarrow> bool" where
  "isgraph c \<longleftrightarrow> 33 \<le> (of_char c :: nat) \<and> (of_char c :: nat) \<le> 126"

definition tolower :: "char \<Rightarrow> nat" where
  "tolower c = (if 65 \<le> (of_char c :: nat) \<and> (of_char c :: nat) \<le> 90 then of_char c + 32
                else of_char c)"

definition map_char_to_number :: "char \<Rightarrow> error + 32 word" where
  "map_char_to_number c =
     (if 48 \<le> (of_char c :: nat) \<and> (of_char c :: nat) \<le> 57 then Inr (of_nat (of_char c - 48))
      else if 97 \<le> tolower c \<and> tolower c \<le> 122 then Inr (of_nat (tolower c + 10 - 97))
      else Inl Fatal)"

definition numeric :: "char \<Rightarrow> nat \<Rightarrow> bool" where
  "numeric c base = (if base = 10 then isdigit c else isxdigit c)"

text \<open>The second loop of \<^verbatim>\<open>number\<close>: \<^verbatim>\<open>out = out * base + map_char_to_number(s[i])\<close> in
  \<^verbatim>\<open>uint32_t\<close>.\<close>

fun accumulate :: "nat \<Rightarrow> 32 word \<Rightarrow> string \<Rightarrow> error + 32 word" where
  "accumulate base out [] = Inr out"
| "accumulate base out (c # cs) =
     ebind (map_char_to_number c) (\<lambda>d. accumulate base (out * of_nat base + d) cs)"

text \<open>\<^verbatim>\<open>number\<close>: \<open>Inr None\<close> when it returns 0, \<open>Inr (Some v)\<close> when it returns 1 with
  \<open>v\<close> stored through \<^verbatim>\<open>o\<close>. The string is the identifier buffer up to its terminator,
  and \<^verbatim>\<open>length\<close> is its length, as in the one call in \<^verbatim>\<open>lexer\<close>.\<close>

definition number :: "string \<Rightarrow> error + cell option" where
  "number s =
     (if s = [] then Inr None
      else
        (let negate = (s ! 0 = CHR ''-'')
         in if negate \<and> length s = 1 then Inr None
            else
              (let i = (if negate then 1 else 0 :: nat);
                   hex = (s ! i = CHR ''$'');
                   base = (if hex then 16 else 10 :: nat);
                   start = (if hex then i + 1 else i)
               in if hex \<and> length s = i + 1 then Inr None
                  else if \<not> list_all (\<lambda>c. numeric c base) (drop start s) then Inr None
                  else ebind (accumulate base 0 (drop start s)) (\<lambda>out.
                         Inr (Some (ucast (if negate then out * (- 1) else out)))))))"

text \<open>\<^verbatim>\<open>keywords\<close> (the name is a keyword here), from \<^verbatim>\<open>LEX_CONSTANT\<close> on: the named
  tokens, then the mnemonics of the instructions.\<close>

definition named_tokens :: "string list" where
  "named_tokens =
     [''constant'', ''call'', ''branch'', ''0branch'', ''begin'', ''while'', ''repeat'',
      ''again'', ''until'', ''for'', ''aft'', ''next'', ''if'', ''else'', ''then'', '':'', '';'',
      ''[char]'', ''variable'', ''location'', ''immediate'', ''hidden'', ''inline'', [CHR 0x27],
      ''.pwd'', ''.set'', ''.pc'', ''.mode'', ''.allocate'', ''.built-in'']"

definition keywords_tab :: "h2_header \<Rightarrow> string list" where
  "keywords_tab cf = named_tokens @ map fst (X_MACRO_INSTRUCTIONS cf)"

text \<open>The loop \<^verbatim>\<open>while(isgraph(ch))\<close> of \<^verbatim>\<open>lexer\<close>, which fills \<^verbatim>\<open>l->id\<close>; the end of
  the input is not a graphical character.\<close>

fun graph_loop :: "string \<Rightarrow> string \<Rightarrow> error + string \<times> string" where
  "graph_loop ident [] = Inr (ident, [])"
| "graph_loop ident (ch # rest) =
     (if isgraph ch then
        (if length ident \<ge> 255 then Inl IdentifierTooLarge
         else graph_loop (ident @ [ch]) rest)
      else Inr (ident, ch # rest))"

text \<open>What \<^verbatim>\<open>lexer\<close> does with the bare word in \<^verbatim>\<open>l->id\<close>: the token, and the new
  \<^verbatim>\<open>in_definition\<close>.\<close>

definition lexer_word :: "h2_header \<Rightarrow> bool \<Rightarrow> string \<Rightarrow> error + token_t \<times> bool" where
  "lexer_word cf in_def ident =
     ebind (number ident) (\<lambda>r.
       case r of
         Some lit \<Rightarrow> Inr (LEX_LITERAL lit, in_def)
       | None \<Rightarrow>
           if ident \<in> set (keywords_tab cf) then
             (if ident = '':'' then
                (if in_def then Inl NestedDefinitionToken else Inr (LEX_KEYWORD ident, True))
              else if ident = '';'' then
                (if \<not> in_def then Inl EndDefinitionOutside else Inr (LEX_KEYWORD ident, False))
              else if ident \<notin> set named_tokens then Inr (LEX_INSTRUCTION ident, in_def)
              else Inr (LEX_KEYWORD ident, in_def))
           else if length ident > 1 \<and> last ident = CHR '':'' then
             Inr (LEX_LABEL (butlast ident), in_def)
           else Inr (LEX_IDENTIFIER ident, in_def))"

text \<open>The \<^verbatim>\<open>default\<close> case of the \<^verbatim>\<open>switch\<close> in \<^verbatim>\<open>lexer\<close>, on the input from \<^verbatim>\<open>ch\<close> on:
  the token, the new \<^verbatim>\<open>in_definition\<close>, and the input left (the character that ended
  the word is pushed back).\<close>

definition lexer_graph ::
  "h2_header \<Rightarrow> bool \<Rightarrow> string \<Rightarrow> error + token_t \<times> bool \<times> string" where
  "lexer_graph cf in_def input =
     (case input of
        [] \<Rightarrow> Inl InvalidCharacter
      | ch # _ \<Rightarrow>
          if isgraph ch then
            ebind (graph_loop [] input) (\<lambda>(ident, rest).
            ebind (lexer_word cf in_def ident) (\<lambda>(tok, in_def'). Inr (tok, in_def', rest)))
          else Inl InvalidCharacter)"

text \<open>The integer a string of decimal digits denotes.\<close>

definition decimal_value :: "string \<Rightarrow> nat" where
  "decimal_value ds = foldl (\<lambda>n c. 10 * n + (of_char c - 48)) 0 ds"

section \<open>Executing a bounded number of instructions; two instances of the header\<close>

text \<open>\<open>k\<close> passes of the loop of \<^verbatim>\<open>h2_run\<close>, stopping early where \<^verbatim>\<open>h2_run\<close> stops.\<close>

fun h2_steps :: "h2_header \<Rightarrow> nat \<Rightarrow> h2_t \<Rightarrow> host \<Rightarrow> outcome" where
  "h2_steps cf 0 h w = Next h w"
| "h2_steps cf (Suc k) h w =
     (case h2_step cf h w of Next h' w' \<Rightarrow> h2_steps cf k h' w' | r \<Rightarrow> r)"

text \<open>
  Modelled from the spec: two instances of the declarations of h2.h, for the theorems
  that evaluate the code at a concrete input. \<open>header_spec\<close> has the layout of the
  specification's section 3: \<open>R\<rightarrow>PC\<close> at bit 12 and an ALU operation field of 4 bits.
  \<open>header_wide\<close> has an ALU operation field of 5 bits, which the operations from
  \<open>rdepth\<close> to \<open>BYE\<close> need, and \<open>R\<rightarrow>PC\<close> at bit 4. The specification gives no value for
  the memory map; both instances take a 13-bit program space, code from cell 8, and the
  two stacks above the program. The instruction words are composed from the fields of
  section 3, the table of mnemonics holds five instructions, and \<open>union_number\<close> is 0.
\<close>

definition header_spec :: h2_header where
  "header_spec =
     \<lparr> MAX_PROGRAM = 8192, START_ADDR = 8,
       VARIABLE_STACK_START = 0x4000, RETURN_STACK_START = 0x4100,
       ALU_OP_LENGTH = 4, R_TO_PC = 0x1000,
       CODE_FROMR = 0x6B8D, CODE_LOAD = 0x6C00, CODE_T_N1 = 0x6A00,
       CODE_TOR = 0x6147, CODE_RAT = 0x6B81, CODE_RDROP = 0x600C,
       X_MACRO_INSTRUCTIONS =
         [(''dup'', True, 0x6081), (''+'', True, 0x6203), (''invert'', True, 0x6600),
          (''exit'', True, 0x700C), (''rdrop'', True, 0x600C)],
       union_number = (\<lambda>tok. 0) \<rparr>"

definition header_wide :: h2_header where
  "header_wide =
     \<lparr> MAX_PROGRAM = 8192, START_ADDR = 8,
       VARIABLE_STACK_START = 0x4000, RETURN_STACK_START = 0x4100,
       ALU_OP_LENGTH = 5, R_TO_PC = 0x0010,
       CODE_FROMR = 0x6B8D, CODE_LOAD = 0x6C00, CODE_T_N1 = 0x6A00,
       CODE_TOR = 0x6147, CODE_RAT = 0x6B81, CODE_RDROP = 0x600C,
       X_MACRO_INSTRUCTIONS =
         [(''dup'', True, 0x6081), (''+'', True, 0x6203), (''invert'', True, 0x6600),
          (''exit'', True, 0x601C), (''rdrop'', True, 0x600C)],
       union_number = (\<lambda>tok. 0) \<rparr>"

text \<open>The assembler state that \<^verbatim>\<open>code\<close> starts from, with a given mode.\<close>

definition assembler_init :: "h2_header \<Rightarrow> cell \<Rightarrow> assembler_t" where
  "assembler_init cf m =
     \<lparr> in_definition = False, start_defined = False, built_in_words_defined = False,
       start = 0, mode = m, pwd = 0, fence = START_ADDR cf,
       do_r_minus_one = None, do_next = None, do_var = None, do_const = None \<rparr>"

section \<open>Concrete inputs\<close>

text \<open>A fresh machine whose core holds, from the start address on, the four cells
  literal 1, literal 2, \<open>T+N\<close> with data-stack delta \<open>-1\<close>, and \<open>BYE\<close>.\<close>

definition image_add_bye :: "h2_header \<Rightarrow> h2_t" where
  "image_add_bye cf =
     (let h = h2_new cf (START_ADDR cf)
      in h\<lparr> core := (core h)
            (START_ADDR cf := OP_LITERAL OR 1,
             START_ADDR cf + 1 := OP_LITERAL OR 2,
             START_ADDR cf + 2 := OP_ALU_OP OR MK_CODE ALU_OP_T_PLUS_N OR MK_DSTACK DELTA_N1,
             START_ADDR cf + 3 := OP_ALU_OP OR MK_CODE ALU_OP_BYE) \<rparr>)"

definition host_empty :: host where
  "host_empty = \<lparr> stdin = [], stdout = [], block = None \<rparr>"


definition peephole_rewrite :: "h2_header \<Rightarrow> h2_t \<Rightarrow> assembler_t \<Rightarrow> cell \<Rightarrow> bool" where
  "peephole_rewrite cf h a instruction \<longleftrightarrow> pc (fst (generate cf h a instruction)) = pc h"


text \<open>A fresh machine and assembler, optimization on, after \<^verbatim>\<open>generate\<close> has emitted a
  call to cell 8.\<close>

definition after_call :: "h2_t \<times> assembler_t" where
  "after_call =
     generate header_spec (h2_new header_spec 8) (assembler_init header_spec MODE_OPTIMIZATION_ON)
       (OP_CALL OR 8)"

text \<open>The syntax trees that \<^verbatim>\<open>parse\<close> builds for the sources \<^verbatim>\<open>: a 1 ; : b a ;\<close> and
  \<^verbatim>\<open>: id dup ;\<close>: a program of one statement list; each definition holds its name,
  no flag bits, and the statement list of its body.\<close>

definition prog_a_b :: node_t where
  "prog_a_b =
     SYM_PROGRAM (SYM_STATEMENTS
       [SYM_DEFINITION 0 (LEX_IDENTIFIER ''a'') (SYM_STATEMENTS [SYM_LITERAL (LEX_LITERAL 1)]),
        SYM_DEFINITION 0 (LEX_IDENTIFIER ''b'')
          (SYM_STATEMENTS [SYM_CALL_DEFINITION (LEX_IDENTIFIER ''a'')])])"

definition prog_id_dup :: node_t where
  "prog_id_dup =
     SYM_PROGRAM (SYM_STATEMENTS
       [SYM_DEFINITION 0 (LEX_IDENTIFIER ''id'')
          (SYM_STATEMENTS [SYM_INSTRUCTION (LEX_INSTRUCTION ''dup'')])])"

section \<open>What the invariant of the branch prefix speaks of\<close>

text \<open>\<open>no_directives\<close>: the tree holds no \<^verbatim>\<open>.set\<close>, \<^verbatim>\<open>.pc\<close> or \<^verbatim>\<open>.allocate\<close> node, the
  three statements that write to, or move \<open>pc\<close> to, an address the source names.\<close>

fun no_directives :: "node_t \<Rightarrow> bool" where
  "no_directives (SYM_PROGRAM n0) = no_directives n0"
| "no_directives (SYM_STATEMENTS ns) = list_all no_directives ns"
| "no_directives (SYM_BEGIN_UNTIL n0) = no_directives n0"
| "no_directives (SYM_BEGIN_AGAIN n0) = no_directives n0"
| "no_directives (SYM_BEGIN_WHILE_REPEAT n0 n1) = (no_directives n0 \<and> no_directives n1)"
| "no_directives (SYM_FOR_NEXT n0) = no_directives n0"
| "no_directives (SYM_FOR_AFT_THEN_NEXT n0 n1 n2) =
     (no_directives n0 \<and> no_directives n1 \<and> no_directives n2)"
| "no_directives (SYM_IF1 n0 e1) =
     (no_directives n0 \<and> (case e1 of None \<Rightarrow> True | Some n1 \<Rightarrow> no_directives n1))"
| "no_directives (SYM_DEFINITION bits tok n0) = no_directives n0"
| "no_directives (SYM_SET tok vtok) = False"
| "no_directives (SYM_PC tok) = False"
| "no_directives (SYM_ALLOCATE tok) = False"
| "no_directives n = True"

text \<open>\<open>cells\<close>: a bound on the number of cells that assembling the tree can take: one
  per instruction or hole, 256 for a packed string (a length cell and at most 255
  characters), 257 for a word header.\<close>

definition built_in_cells :: "h2_header \<Rightarrow> nat" where
  "built_in_cells cf = sum_list (map (\<lambda>b. 258 + length (bw_code b)) (built_in_words cf))"

fun cells :: "h2_header \<Rightarrow> node_t \<Rightarrow> nat" where
  "cells cf (SYM_PROGRAM n0) = cells cf n0"
| "cells cf (SYM_STATEMENTS ns) = sum_list (map (cells cf) ns)"
| "cells cf (SYM_LABEL tok) = 0"
| "cells cf (SYM_BRANCH tok) = 1"
| "cells cf (SYM_0BRANCH tok) = 1"
| "cells cf (SYM_CALL tok) = 1"
| "cells cf (SYM_CONSTANT bits tok vtok) = 259"
| "cells cf (SYM_VARIABLE bits tok vtok) = 514"
| "cells cf (SYM_LOCATION bits tok vtok) = 256"
| "cells cf (SYM_LITERAL tok) = 2"
| "cells cf (SYM_STRING tok) = 0"
| "cells cf (SYM_INSTRUCTION tok) = 1"
| "cells cf (SYM_BEGIN_UNTIL n0) = cells cf n0 + 1"
| "cells cf (SYM_BEGIN_AGAIN n0) = cells cf n0 + 1"
| "cells cf (SYM_BEGIN_WHILE_REPEAT n0 n1) = cells cf n0 + cells cf n1 + 2"
| "cells cf (SYM_FOR_NEXT n0) = cells cf n0 + 8"
| "cells cf (SYM_FOR_AFT_THEN_NEXT n0 n1 n2) = cells cf n0 + cells cf n1 + cells cf n2 + 9"
| "cells cf (SYM_IF1 n0 e1) =
     cells cf n0 + (case e1 of None \<Rightarrow> 0 | Some n1 \<Rightarrow> cells cf n1) + 2"
| "cells cf (SYM_DEFINITION bits tok n0) = cells cf n0 + 258"
| "cells cf (SYM_CHAR tok) = 1"
| "cells cf (SYM_QUOTE tok) = 2"
| "cells cf (SYM_PWD tok) = 0"
| "cells cf (SYM_SET tok vtok) = 0"
| "cells cf (SYM_PC tok) = 0"
| "cells cf SYM_BUILT_IN = built_in_cells cf"
| "cells cf (SYM_MODE tok) = 0"
| "cells cf (SYM_ALLOCATE tok) = 0"
| "cells cf (SYM_CALL_DEFINITION tok) = 2"

text \<open>\<open>prefix_safe\<close>: the fence and \<open>pc\<close> are not below the start address, and the cells
  below it are those of the core \<open>c0\<close>. \<open>budget\<close>: moreover \<open>pc\<close> can move up by \<open>b\<close> more
  cells without leaving the 16 bits it has.\<close>

definition prefix_safe :: "h2_header \<Rightarrow> (cell \<Rightarrow> cell) \<Rightarrow> h2_t \<Rightarrow> assembler_t \<Rightarrow> bool" where
  "prefix_safe cf c0 h a \<longleftrightarrow>
     unat (START_ADDR cf) \<le> unat (fence a) \<and> unat (START_ADDR cf) \<le> unat (pc h)
     \<and> (\<forall>x. unat x < unat (START_ADDR cf) \<longrightarrow> core h x = c0 x)"

definition budget :: "h2_header \<Rightarrow> (cell \<Rightarrow> cell) \<Rightarrow> nat \<Rightarrow> h2_t \<Rightarrow> assembler_t \<Rightarrow> bool" where
  "budget cf c0 b h a \<longleftrightarrow> prefix_safe cf c0 h a \<and> unat (pc h) + b < 65536"

text \<open>The program \<^verbatim>\<open>.set 0 $1234\<close>.\<close>

definition prog_set_0 :: node_t where
  "prog_set_0 = SYM_PROGRAM (SYM_STATEMENTS [SYM_SET (LEX_LITERAL 0) (LEX_LITERAL 0x1234)])"

section \<open>The statements that an assembly reaches\<close>

text \<open>
  \<open>assemble_calls cf n s m s'\<close>: the run of \<^verbatim>\<open>assemble\<close> on the node \<open>n\<close> from the state
  \<open>s\<close> makes the call of \<^verbatim>\<open>assemble\<close> on the node \<open>m\<close> from the state \<open>s'\<close>, either as the
  run itself or as one of the recursive calls, at any depth. There is one rule for each
  recursive call in \<^verbatim>\<open>assemble\<close>; its premises say that the check of \<open>pc\<close> at the entry
  has passed and that everything before the call has returned (a call that ends with an
  error returns to \<^verbatim>\<open>assembler\<close>, and nothing after it is run). \<open>assemble_list_calls\<close> is
  the same for the loop over the children of a \<^verbatim>\<open>SYM_STATEMENTS\<close> node.
\<close>

inductive assemble_calls :: "h2_header \<Rightarrow> node_t \<Rightarrow> asm_state \<Rightarrow> node_t \<Rightarrow> asm_state \<Rightarrow> bool"
  and assemble_list_calls ::
    "h2_header \<Rightarrow> node_t list \<Rightarrow> asm_state \<Rightarrow> node_t \<Rightarrow> asm_state \<Rightarrow> bool" where
  itself: "assemble_calls cf n s n s"
| in_list_head:
    "assemble_calls cf n s m s' \<Longrightarrow> assemble_list_calls cf (n # ns) s m s'"
| in_list_tail:
    "assemble cf n s = Inr s1 \<Longrightarrow> assemble_list_calls cf ns s1 m s'
     \<Longrightarrow> assemble_list_calls cf (n # ns) s m s'"
| in_program:
    "\<not> unat (pc h) > MAX_PROGRAM cf \<Longrightarrow> assemble_calls cf n0 (h, a, t) m s'
     \<Longrightarrow> assemble_calls cf (SYM_PROGRAM n0) (h, a, t) m s'"
| in_statements:
    "\<not> unat (pc h) > MAX_PROGRAM cf \<Longrightarrow> assemble_list_calls cf ns (h, a, t) m s'
     \<Longrightarrow> assemble_calls cf (SYM_STATEMENTS ns) (h, a, t) m s'"
| in_begin_again:
    "\<not> unat (pc h) > MAX_PROGRAM cf \<Longrightarrow> here cf h a = Inr (hole1, a1)
     \<Longrightarrow> assemble_calls cf n0 (h, a1, t) m s'
     \<Longrightarrow> assemble_calls cf (SYM_BEGIN_AGAIN n0) (h, a, t) m s'"
| in_begin_until:
    "\<not> unat (pc h) > MAX_PROGRAM cf \<Longrightarrow> here cf h a = Inr (hole1, a1)
     \<Longrightarrow> assemble_calls cf n0 (h, a1, t) m s'
     \<Longrightarrow> assemble_calls cf (SYM_BEGIN_UNTIL n0) (h, a, t) m s'"
| in_for_next:
    "\<not> unat (pc h) > MAX_PROGRAM cf \<Longrightarrow> generate cf h a (CODE_TOR cf) = (h1, a1)
     \<Longrightarrow> here cf h1 a1 = Inr (hole1, a2)
     \<Longrightarrow> assemble_calls cf n0 (h1, a2, t) m s'
     \<Longrightarrow> assemble_calls cf (SYM_FOR_NEXT n0) (h, a, t) m s'"
| in_for_aft:
    "\<not> unat (pc h) > MAX_PROGRAM cf \<Longrightarrow> generate cf h a (CODE_TOR cf) = (h1, a1)
     \<Longrightarrow> assemble_calls cf n0 (h1, a1, t) m s'
     \<Longrightarrow> assemble_calls cf (SYM_FOR_AFT_THEN_NEXT n0 n1 n2) (h, a, t) m s'"
| in_for_then:
    "\<not> unat (pc h) > MAX_PROGRAM cf \<Longrightarrow> generate cf h a (CODE_TOR cf) = (h1, a1)
     \<Longrightarrow> assemble cf n0 (h1, a1, t) = Inr (h2, a2, t2)
     \<Longrightarrow> hole cf h2 a2 = Inr (hole1, h3, a3)
     \<Longrightarrow> generate cf h3 a3 (CODE_RAT cf) = (h4, a4)
     \<Longrightarrow> generate_loop_decrement cf h4 a4 t2 = (h5, a5)
     \<Longrightarrow> hole cf h5 a5 = Inr (hole2, h6, a6)
     \<Longrightarrow> assemble_calls cf n1 (h6, a6, t2) m s'
     \<Longrightarrow> assemble_calls cf (SYM_FOR_AFT_THEN_NEXT n0 n1 n2) (h, a, t) m s'"
| in_for_next_of_aft:
    "\<not> unat (pc h) > MAX_PROGRAM cf \<Longrightarrow> generate cf h a (CODE_TOR cf) = (h1, a1)
     \<Longrightarrow> assemble cf n0 (h1, a1, t) = Inr (h2, a2, t2)
     \<Longrightarrow> hole cf h2 a2 = Inr (hole1, h3, a3)
     \<Longrightarrow> generate cf h3 a3 (CODE_RAT cf) = (h4, a4)
     \<Longrightarrow> generate_loop_decrement cf h4 a4 t2 = (h5, a5)
     \<Longrightarrow> hole cf h5 a5 = Inr (hole2, h6, a6)
     \<Longrightarrow> assemble cf n1 (h6, a6, t2) = Inr s7
     \<Longrightarrow> fix_here cf hole1 OP_BRANCH s7 = Inr s8
     \<Longrightarrow> assemble_calls cf n2 s8 m s'
     \<Longrightarrow> assemble_calls cf (SYM_FOR_AFT_THEN_NEXT n0 n1 n2) (h, a, t) m s'"
| in_begin_while:
    "\<not> unat (pc h) > MAX_PROGRAM cf \<Longrightarrow> here cf h a = Inr (hole1, a1)
     \<Longrightarrow> assemble_calls cf n0 (h, a1, t) m s'
     \<Longrightarrow> assemble_calls cf (SYM_BEGIN_WHILE_REPEAT n0 n1) (h, a, t) m s'"
| in_while_repeat:
    "\<not> unat (pc h) > MAX_PROGRAM cf \<Longrightarrow> here cf h a = Inr (hole1, a1)
     \<Longrightarrow> assemble cf n0 (h, a1, t) = Inr (h2, a2, t2)
     \<Longrightarrow> hole cf h2 a2 = Inr (hole2, h3, a3)
     \<Longrightarrow> assemble_calls cf n1 (h3, a3, t2) m s'
     \<Longrightarrow> assemble_calls cf (SYM_BEGIN_WHILE_REPEAT n0 n1) (h, a, t) m s'"
| in_if:
    "\<not> unat (pc h) > MAX_PROGRAM cf \<Longrightarrow> hole cf h a = Inr (hole1, h1, a1)
     \<Longrightarrow> assemble_calls cf n0 (h1, a1, t) m s'
     \<Longrightarrow> assemble_calls cf (SYM_IF1 n0 e1) (h, a, t) m s'"
| in_else:
    "\<not> unat (pc h) > MAX_PROGRAM cf \<Longrightarrow> hole cf h a = Inr (hole1, h1, a1)
     \<Longrightarrow> assemble cf n0 (h1, a1, t) = Inr (h2, a2, t2)
     \<Longrightarrow> hole cf h2 a2 = Inr (hole2, h3, a3)
     \<Longrightarrow> fix_cell cf h3 hole1 (OP_0BRANCH OR (hole2 + 1)) = Inr h4
     \<Longrightarrow> assemble_calls cf n1 (h4, a3, t2) m s'
     \<Longrightarrow> assemble_calls cf (SYM_IF1 n0 (Some n1)) (h, a, t) m s'"
| in_definition:
    "\<not> unat (pc h) > MAX_PROGRAM cf \<Longrightarrow> definition_head cf bits tok (h, a, t) = Inr s1
     \<Longrightarrow> assemble_calls cf n0 s1 m s'
     \<Longrightarrow> assemble_calls cf (SYM_DEFINITION bits tok n0) (h, a, t) m s'"

text \<open>The syntax tree of \<^verbatim>\<open>: f branch f ;\<close>, a definition whose body branches to the word
  being defined, and the state in which \<^verbatim>\<open>assemble\<close> comes to the branch when the program
  is assembled by \<^verbatim>\<open>code\<close> with no symbols given: nothing emitted yet, the definition open,
  and \<open>f\<close> in the symbol table as a call symbol.\<close>

definition prog_branch_f :: node_t where
  "prog_branch_f =
     SYM_PROGRAM (SYM_STATEMENTS
       [SYM_DEFINITION 0 (LEX_IDENTIFIER ''f'')
          (SYM_STATEMENTS [SYM_BRANCH (LEX_IDENTIFIER ''f'')])])"

definition at_branch_f :: asm_state where
  "at_branch_f =
     (h2_new header_spec 8, (assembler_init header_spec 0)\<lparr> in_definition := True \<rparr>,
      [\<lparr> id = ''f'', val = 8, type = SYMBOL_TYPE_CALL, hidden = False \<rparr>])"


section \<open>Properties: bits of a cell\<close>


lemma cell_eqI:
  "(\<And>n. n \<in> {0..<16} \<Longrightarrow> bit (x::cell) n = bit y n) \<Longrightarrow> x = y"
  by (rule bit_word_eqI) simp

lemmas cell_bits = bit_simps atLeastLessThan_nat_numeral

lemma IS_LITERAL_iff: "IS_LITERAL i \<longleftrightarrow> bit i 15"
proof
  assume "IS_LITERAL i"
  then have "bit (i AND 0x8000) 15 = bit (0x8000 :: cell) 15"
    by (simp add: IS_LITERAL_def)
  then show "bit i 15" by (simp add: bit_simps)
next
  assume "bit i 15"
  then have "i AND 0x8000 = 0x8000"
    by (intro cell_eqI) (auto simp: cell_bits)
  then show "IS_LITERAL i" by (simp add: IS_LITERAL_def)
qed

lemma prefix_bits:
  "(i :: cell) AND 0xE000 = p \<longleftrightarrow>
     p AND 0x1FFF = 0 \<and> bit i 15 = bit p 15 \<and> bit i 14 = bit p 14 \<and> bit i 13 = bit p 13"
proof
  assume e: "i AND 0xE000 = p"
  have "p AND 0x1FFF = 0"
    unfolding e [symmetric] by (intro cell_eqI) (auto simp: cell_bits)
  moreover have "bit p 15 = bit i 15" "bit p 14 = bit i 14" "bit p 13 = bit i 13"
    unfolding e [symmetric] by (simp_all add: bit_simps)
  ultimately show "p AND 0x1FFF = 0 \<and> bit i 15 = bit p 15 \<and> bit i 14 = bit p 14 \<and> bit i 13 = bit p 13"
    by simp
next
  assume a: "p AND 0x1FFF = 0 \<and> bit i 15 = bit p 15 \<and> bit i 14 = bit p 14 \<and> bit i 13 = bit p 13"
  have low: "\<not> bit p n" if "n < 13" for n
  proof
    assume "bit p n"
    moreover from that have "n \<in> {0..<13}" by simp
    ultimately have "bit (p AND 0x1FFF) n"
      by (auto simp: cell_bits)
    with a show False by simp
  qed
  show "i AND 0xE000 = p"
    using a low by (intro cell_eqI) (auto simp: cell_bits)
qed

lemma IS_ALU_OP_iff: "IS_ALU_OP i \<longleftrightarrow> \<not> bit i 15 \<and> bit i 14 \<and> bit i 13"
  by (simp add: IS_ALU_OP_def prefix_bits)

lemma IS_CALL_iff: "IS_CALL i \<longleftrightarrow> \<not> bit i 15 \<and> bit i 14 \<and> \<not> bit i 13"
  by (simp add: IS_CALL_def prefix_bits)

lemma IS_0BRANCH_iff: "IS_0BRANCH i \<longleftrightarrow> \<not> bit i 15 \<and> \<not> bit i 14 \<and> bit i 13"
  by (simp add: IS_0BRANCH_def prefix_bits)

lemma IS_BRANCH_iff: "IS_BRANCH i \<longleftrightarrow> \<not> bit i 15 \<and> \<not> bit i 14 \<and> \<not> bit i 13"
  by (simp add: IS_BRANCH_def prefix_bits)

lemmas IS_iff = IS_LITERAL_iff IS_ALU_OP_iff IS_CALL_iff IS_0BRANCH_iff IS_BRANCH_iff

lemma ebind_simps [simp]:
  "ebind (Inl e) f = Inl e" "ebind (Inr v) f = f v"
  by (simp_all add: ebind_def)

section \<open>Properties: the virtual machine\<close>


lemmas ALU_OP_codes = ALU_OP_BYE_def ALU_OP_T_def ALU_OP_N_def ALU_OP_T_PLUS_N_def
    ALU_OP_T_AND_N_def ALU_OP_T_OR_N_def ALU_OP_T_XOR_N_def ALU_OP_T_INVERT_def ALU_OP_T_EQUAL_N_def
    ALU_OP_N_LESS_T_def ALU_OP_N_RSHIFT_T_def ALU_OP_T_DECREMENT_def ALU_OP_R_def ALU_OP_T_LOAD_def
    ALU_OP_N_LSHIFT_T_def ALU_OP_DEPTH_def ALU_OP_N_ULESS_T_def ALU_OP_RDEPTH_def ALU_OP_T_EQUAL_0_def
    ALU_OP_TX_def ALU_OP_RX_def ALU_OP_SAVE_def

lemma h2_step_literal:
  assumes "IS_LITERAL (core h (pc h))"
  shows "h2_step cf h w =
    Next ((dpush h (core h (pc h) AND 0x7FFF))\<lparr> pc := of_nat ((unat (pc h) + 1) mod MAX_PROGRAM cf) \<rparr>) w"
  using assms by (simp add: h2_step_def Let_def)

lemma h2_step_bye:
  assumes "IS_ALU_OP (core h (pc h))" and "ALU_OP cf (core h (pc h)) = ALU_OP_BYE"
  shows "h2_step cf h w = Return (uint (tos h))"
  using assms by (simp add: h2_step_def Let_def IS_iff ALU_OP_codes)

lemma h2_step_plus:
  assumes "IS_ALU_OP (core h (pc h))" and "ALU_OP cf (core h (pc h)) = ALU_OP_T_PLUS_N"
  shows "h2_step cf h w =
     Next (alu_commit h (core h (pc h)) (core h (sp h)) (tos h + core h (sp h))
        (if core h (pc h) AND R_TO_PC cf \<noteq> 0 then drop_bit 1 (core h (rp h))
         else of_nat ((unat (pc h) + 1) mod MAX_PROGRAM cf))) w"
  using assms by (simp add: h2_step_def Let_def IS_iff ALU_OP_codes)

lemma h2_step_invert:
  assumes "IS_ALU_OP (core h (pc h))" and "ALU_OP cf (core h (pc h)) = ALU_OP_T_INVERT"
  shows "h2_step cf h w =
     Next (alu_commit h (core h (pc h)) (core h (sp h)) (NOT (tos h))
        (if core h (pc h) AND R_TO_PC cf \<noteq> 0 then drop_bit 1 (core h (rp h))
         else of_nat ((unat (pc h) + 1) mod MAX_PROGRAM cf))) w"
  using assms by (simp add: h2_step_def Let_def IS_iff ALU_OP_codes)

lemma h2_run_bye:
  assumes "IS_ALU_OP (core h (pc h))" and "ALU_OP cf (core h (pc h)) = ALU_OP_BYE"
  shows "h2_run cf h w = Some (Return (uint (tos h)))"
  by (subst h2_run.simps) (simp add: h2_step_bye[OF assms])

lemma pc_plus_one: "unat p + 1 < M \<Longrightarrow> (of_nat ((unat (p::cell) + 1) mod M) :: cell) = p + 1"
  by simp


lemma plus_cell:
  "IS_ALU_OP (OP_ALU_OP OR MK_CODE ALU_OP_T_PLUS_N OR MK_DSTACK DELTA_N1)"
  "ALU_OP_LENGTH cf = 5 \<Longrightarrow> ALU_OP cf (OP_ALU_OP OR MK_CODE ALU_OP_T_PLUS_N OR MK_DSTACK DELTA_N1) = ALU_OP_T_PLUS_N"
  "DSTACK (OP_ALU_OP OR MK_CODE ALU_OP_T_PLUS_N OR MK_DSTACK DELTA_N1) = 3"
  "RSTACK (OP_ALU_OP OR MK_CODE ALU_OP_T_PLUS_N OR MK_DSTACK DELTA_N1) = 0"
  "(OP_ALU_OP OR MK_CODE ALU_OP_T_PLUS_N OR MK_DSTACK DELTA_N1) AND T_TO_R = 0"
  "(OP_ALU_OP OR MK_CODE ALU_OP_T_PLUS_N OR MK_DSTACK DELTA_N1) AND T_TO_N = 0"
  "(OP_ALU_OP OR MK_CODE ALU_OP_T_PLUS_N OR MK_DSTACK DELTA_N1) AND N_TO_ADDR_T = 0"
  by (simp_all add: IS_ALU_OP_def OP_ALU_OP_def MK_CODE_def MK_DSTACK_def DELTA_N1_def ALU_OP_codes
       ALU_OP_def DSTACK_def RSTACK_def T_TO_R_def T_TO_N_def N_TO_ADDR_T_def mask_numeral)

lemma bye_cell:
  "IS_ALU_OP (OP_ALU_OP OR MK_CODE ALU_OP_BYE)"
  "ALU_OP_LENGTH cf = 5 \<Longrightarrow> ALU_OP cf (OP_ALU_OP OR MK_CODE ALU_OP_BYE) = ALU_OP_BYE"
  by (simp_all add: IS_ALU_OP_def OP_ALU_OP_def MK_CODE_def ALU_OP_codes ALU_OP_def mask_numeral)

lemma lit_cells:
  "IS_LITERAL (OP_LITERAL OR 1)" "(OP_LITERAL OR 1) AND 0x7FFF = 1"
  "IS_LITERAL (OP_LITERAL OR 2)" "(OP_LITERAL OR 2) AND 0x7FFF = 2"
  by (simp_all add: IS_LITERAL_def OP_LITERAL_def)

lemma stack_delta_simps:
  "stack_delta 0 = 0" "stack_delta 1 = 1" "stack_delta 2 = 0xFFFE" "stack_delta 3 = 0xFFFF"
  by (simp_all add: stack_delta_def)


lemma unat_plus_le: "unat (p + k :: cell) \<le> unat p + unat k"
  by (simp add: unat_word_ariths)

lemma image_returns_3:
  assumes len: "ALU_OP_LENGTH cf = 5"
    and nor: "(OP_ALU_OP OR MK_CODE ALU_OP_T_PLUS_N OR MK_DSTACK DELTA_N1) AND R_TO_PC cf = 0"
    and room: "unat (START_ADDR cf) + 3 < MAX_PROGRAM cf"
    and pc0: "pc h = START_ADDR cf"
    and c0: "core h (START_ADDR cf) = OP_LITERAL OR 1"
    and c1: "core h (START_ADDR cf + 1) = OP_LITERAL OR 2"
    and c2: "core h (START_ADDR cf + 2) = OP_ALU_OP OR MK_CODE ALU_OP_T_PLUS_N OR MK_DSTACK DELTA_N1"
    and c3: "core h (START_ADDR cf + 3) = OP_ALU_OP OR MK_CODE ALU_OP_BYE"
    and st1: "sp h + 1 \<notin> {START_ADDR cf + 1, START_ADDR cf + 2, START_ADDR cf + 3}"
    and st2: "sp h + 2 \<notin> {START_ADDR cf + 2, START_ADDR cf + 3}"
  shows "h2_run cf h w = Some (Return 3)"
proof -
  let ?S = "START_ADDR cf"
  let ?plus = "OP_ALU_OP OR MK_CODE ALU_OP_T_PLUS_N OR MK_DSTACK DELTA_N1"
  define h1 where "h1 = (dpush h 1)\<lparr> pc := ?S + 1 \<rparr>"
  define h2 where "h2 = (dpush h1 2)\<lparr> pc := ?S + 2 \<rparr>"
  define h3 where "h3 = alu_commit h2 ?plus 1 3 (?S + 3)"
  have n0: "(of_nat (Suc (unat ?S) mod MAX_PROGRAM cf) :: cell) = ?S + 1"
    using room by simp
  have "unat (?S + 1) + 1 < MAX_PROGRAM cf"
    using room unat_plus_le [of ?S 1] by simp
  then have n1: "(of_nat (Suc (unat (?S + 1)) mod MAX_PROGRAM cf) :: cell) = ?S + 2"
    by simp
  have "unat (?S + 2) + 1 < MAX_PROGRAM cf"
    using room unat_plus_le [of ?S 2] by simp
  then have n2: "(of_nat (Suc (unat (?S + 2)) mod MAX_PROGRAM cf) :: cell) = ?S + 3"
    by simp
  have s1: "h2_step cf h w = Next h1 w"
    using h2_step_literal [of h cf w] by (simp add: pc0 c0 lit_cells n0 h1_def)
  have f1: "pc h1 = ?S + 1" "sp h1 = sp h + 1" "core h1 (?S + 1) = OP_LITERAL OR 2"
      "core h1 (?S + 2) = ?plus" "core h1 (?S + 3) = OP_ALU_OP OR MK_CODE ALU_OP_BYE" "tos h1 = 1"
    using st1 by (auto simp: h1_def dpush_def Let_def c1 c2 c3)
  have s2: "h2_step cf h1 w = Next h2 w"
    using h2_step_literal [of h1 cf w] by (simp add: f1 lit_cells n1 h2_def)
  have sp2: "sp h + 1 + 1 = sp h + 2" by simp
  have f2: "pc h2 = ?S + 2" "sp h2 = sp h + 2" "core h2 (?S + 2) = ?plus"
      "core h2 (?S + 3) = OP_ALU_OP OR MK_CODE ALU_OP_BYE" "tos h2 = 2" "core h2 (sp h + 2) = 1"
    using st2 by (auto simp: h2_def dpush_def Let_def f1 sp2)
  have s3: "h2_step cf h2 w = Next h3 w"
    using h2_step_plus [of h2 cf w] by (simp add: f2 plus_cell len nor n2 h3_def)
  have f3: "pc h3 = ?S + 3" "tos h3 = 3" "core h3 (?S + 3) = OP_ALU_OP OR MK_CODE ALU_OP_BYE"
    by (simp_all add: h3_def alu_commit_def Let_def plus_cell f2)
  have s4: "h2_step cf h3 w = Return 3"
    using h2_step_bye [of h3 cf w] by (simp add: f3 bye_cell len)
  show ?thesis
    apply (subst h2_run.simps, simp add: s1)
    apply (subst h2_run.simps, simp add: s2)
    apply (subst h2_run.simps, simp add: s3)
    apply (subst h2_run.simps, simp add: s4)
    done
qed

text \<open>
  Claim C1. \<^verbatim>\<open>h2_run\<close> returns the low 16 bits of \<open>tos\<close> when an ALU word whose
  operation is \<open>BYE\<close> is executed; and a machine whose core holds, from the start address
  on, literal 1, literal 2, \<open>T+N\<close> with data-stack delta \<open>-1\<close> and \<open>BYE\<close> returns 3. The
  header must give the ALU operation field the 5 bits that the code of \<open>BYE\<close> needs, the
  \<open>R\<rightarrow>PC\<close> flag must not lie in the \<open>T+N\<close> word, the four cells must lie inside the
  program space, and the two cells the literals push onto the data stack must not be
  cells of the image still to be executed.
\<close>

theorem h2_run_bye_returns_tos:
  assumes "ALU_OP_LENGTH cf = 5"
    and "(OP_ALU_OP OR MK_CODE ALU_OP_T_PLUS_N OR MK_DSTACK DELTA_N1) AND R_TO_PC cf = 0"
    and "unat (START_ADDR cf) + 3 < MAX_PROGRAM cf"
    and "pc h = START_ADDR cf"
    and "core h (START_ADDR cf) = OP_LITERAL OR 1"
    and "core h (START_ADDR cf + 1) = OP_LITERAL OR 2"
    and "core h (START_ADDR cf + 2) = OP_ALU_OP OR MK_CODE ALU_OP_T_PLUS_N OR MK_DSTACK DELTA_N1"
    and "core h (START_ADDR cf + 3) = OP_ALU_OP OR MK_CODE ALU_OP_BYE"
    and "sp h + 1 \<notin> {START_ADDR cf + 1, START_ADDR cf + 2, START_ADDR cf + 3}"
    and "sp h + 2 \<notin> {START_ADDR cf + 2, START_ADDR cf + 3}"
  shows "(\<forall>h' w'. IS_ALU_OP (core h' (pc h')) \<and> ALU_OP cf (core h' (pc h')) = ALU_OP_BYE
            \<longrightarrow> h2_run cf h' w' = Some (Return (uint (tos h'))))
         \<and> h2_run cf h w = Some (Return 3)"
  using image_returns_3 [OF assms] h2_run_bye by blast

theorem h2_run_bye_returns_tos_witness:
  "h2_run header_wide (image_add_bye header_wide) host_empty = Some (Return 3)
   \<and> h2_run header_wide ((image_add_bye header_wide)\<lparr> pc := 11, tos := 0xBEEF \<rparr>) host_empty
       = Some (Return 0xBEEF)"
proof -
  have k: "core (image_add_bye header_wide) 11 = 0x7500"
    by (simp add: image_add_bye_def header_wide_def h2_new_def Let_def OP_ALU_OP_def MK_CODE_def ALU_OP_BYE_def)
  have a: "IS_ALU_OP (0x7500 :: cell)" "ALU_OP header_wide 0x7500 = ALU_OP_BYE"
    by (simp_all add: IS_ALU_OP_def ALU_OP_def header_wide_def ALU_OP_BYE_def mask_numeral)
  have "h2_run header_wide (image_add_bye header_wide) host_empty = Some (Return 3)
    \<and> (\<forall>h' w'. IS_ALU_OP (core h' (pc h')) \<and> ALU_OP header_wide (core h' (pc h')) = ALU_OP_BYE
            \<longrightarrow> h2_run header_wide h' w' = Some (Return (uint (tos h'))))"
    using h2_run_bye_returns_tos [of header_wide "image_add_bye header_wide" host_empty]
    by (simp add: image_add_bye_def header_wide_def h2_new_def Let_def OP_ALU_OP_def MK_CODE_def
        MK_DSTACK_def DELTA_N1_def ALU_OP_T_PLUS_N_def)
  then show ?thesis
    using k a by simp
qed

section \<open>Properties: literals\<close>

lemma CODE_EXIT_bits: "bit (CODE_EXIT cf) 2" "bit (CODE_EXIT cf) 3"
  by (simp_all add: CODE_EXIT_def MK_RSTACK_def DELTA_N1_def bit_simps)

lemma CODE_INVERT_neq_EXIT: "CODE_INVERT \<noteq> CODE_EXIT cf"
proof
  assume "CODE_INVERT = CODE_EXIT cf"
  then have "bit CODE_INVERT 2 = bit (CODE_EXIT cf) 2" by simp
  then show False
    by (simp add: CODE_EXIT_bits CODE_INVERT_def OP_ALU_OP_def MK_CODE_def ALU_OP_T_INVERT_def)
qed

lemma literal_neq_EXIT: "IS_ALU_OP (CODE_EXIT cf) \<Longrightarrow> IS_LITERAL i \<Longrightarrow> i \<noteq> CODE_EXIT cf"
  by (auto simp: IS_iff)

lemma generate_other:
  assumes "instruction \<noteq> CODE_EXIT cf"
  shows "generate cf h a instruction =
     (emit h instruction,
      if IS_CALL instruction \<or> IS_LITERAL instruction \<or> IS_0BRANCH instruction \<or> IS_BRANCH instruction
      then update_fence a (pc h) else a)"
  using assms by (simp add: generate_def Let_def)

lemma CODE_INVERT_class:
  "IS_ALU_OP CODE_INVERT" "\<not> IS_CALL CODE_INVERT" "\<not> IS_LITERAL CODE_INVERT"
  "\<not> IS_0BRANCH CODE_INVERT" "\<not> IS_BRANCH CODE_INVERT"
  by (simp_all add: CODE_INVERT_def OP_ALU_OP_def MK_CODE_def ALU_OP_T_INVERT_def
      IS_ALU_OP_def IS_CALL_def IS_LITERAL_def IS_0BRANCH_def IS_BRANCH_def)

lemma IS_LITERAL_OP_LITERAL: "IS_LITERAL (OP_LITERAL OR x)"
  by (simp add: IS_iff OP_LITERAL_def bit_simps)

lemma generate_literal_eq:
  assumes "IS_ALU_OP (CODE_EXIT cf)"
  shows "generate_literal cf h a n =
           (if \<not> bit n 15 then (emit h (OP_LITERAL OR n), update_fence a (pc h))
            else (emit (emit h (OP_LITERAL OR NOT n)) CODE_INVERT, update_fence a (pc h)))"
proof -
  have b: "n AND OP_LITERAL \<noteq> 0 \<longleftrightarrow> bit n 15"
    using IS_LITERAL_iff [of n] and_exp_eq_0_iff_not_bit [of n 15]
    by (simp add: OP_LITERAL_def)
  show ?thesis
    using assms
    by (simp add: generate_literal_def b generate_other literal_neq_EXIT IS_LITERAL_OP_LITERAL
        CODE_INVERT_neq_EXIT CODE_INVERT_class emit_def)
qed


lemma literal_payload:
  "\<not> bit n 15 \<Longrightarrow> (OP_LITERAL OR n) AND 0x7FFF = (n::cell)"
  "bit n 15 \<Longrightarrow> (OP_LITERAL OR NOT n) AND 0x7FFF = NOT (n::cell)"
  by (intro cell_eqI; auto simp: cell_bits OP_LITERAL_def)+

lemma CODE_INVERT_fields:
  "3 \<le> ALU_OP_LENGTH cf \<Longrightarrow> ALU_OP_LENGTH cf \<le> 5 \<Longrightarrow> ALU_OP cf CODE_INVERT = ALU_OP_T_INVERT"
  "DSTACK CODE_INVERT = 0" "RSTACK CODE_INVERT = 0"
  "CODE_INVERT AND T_TO_R = 0" "CODE_INVERT AND T_TO_N = 0" "CODE_INVERT AND N_TO_ADDR_T = 0"
proof -
  assume "3 \<le> ALU_OP_LENGTH cf" "ALU_OP_LENGTH cf \<le> 5"
  then have "ALU_OP_LENGTH cf = 3 \<or> ALU_OP_LENGTH cf = 4 \<or> ALU_OP_LENGTH cf = 5" by arith
  then show "ALU_OP cf CODE_INVERT = ALU_OP_T_INVERT"
    by (auto simp: ALU_OP_def CODE_INVERT_def OP_ALU_OP_def MK_CODE_def ALU_OP_T_INVERT_def mask_numeral)
qed (simp_all add: CODE_INVERT_def OP_ALU_OP_def MK_CODE_def ALU_OP_T_INVERT_def DSTACK_def RSTACK_def
       T_TO_R_def T_TO_N_def N_TO_ADDR_T_def)

lemma literal_executes:
  assumes ex: "IS_ALU_OP (CODE_EXIT cf)"
    and len: "3 \<le> ALU_OP_LENGTH cf" "ALU_OP_LENGTH cf \<le> 5"
    and room: "unat (pc h) + 1 < MAX_PROGRAM cf"
    and cv: "core v = core (fst (generate_literal cf h a n))"
    and pv: "pc v = pc h"
    and sv: "sp v + 1 \<noteq> pc h + 1"
  shows "\<exists>v' w'. h2_steps cf (if \<not> bit n 15 then 1 else 2) v w = Next v' w' \<and> tos v' = n"
proof (cases "bit n 15")
  case False
  have c: "core v (pc v) = OP_LITERAL OR n"
    by (simp add: cv pv generate_literal_eq [OF ex] False emit_def)
  show ?thesis
    using h2_step_literal [of v cf w]
    by (simp add: c False IS_LITERAL_OP_LITERAL literal_payload dpush_def Let_def)
next
  case True
  have ne: "pc h \<noteq> pc h + 1" by simp
  have c0: "core v (pc h) = OP_LITERAL OR NOT n" and c1: "core v (pc h + 1) = CODE_INVERT"
    using ne by (simp_all add: cv generate_literal_eq [OF ex] True emit_def)
  define v1 where "v1 = (dpush v (NOT n))\<lparr> pc := pc h + 1 \<rparr>"
  have n0: "(of_nat (Suc (unat (pc h)) mod MAX_PROGRAM cf) :: cell) = pc h + 1"
    using room by simp
  have s1: "h2_step cf v w = Next v1 w"
    using h2_step_literal [of v cf w]
    by (simp add: pv c0 True IS_LITERAL_OP_LITERAL literal_payload n0 v1_def)
  have f1: "pc v1 = pc h + 1" "tos v1 = NOT n" "core v1 (pc h + 1) = CODE_INVERT"
    using sv by (simp_all add: v1_def dpush_def Let_def c1)
  have s2: "\<exists>v' w'. h2_step cf v1 w = Next v' w' \<and> tos v' = n"
    using h2_step_invert [of v1 cf w]
    by (simp add: f1 CODE_INVERT_class CODE_INVERT_fields len alu_commit_def Let_def stack_delta_simps)
  have two: "(2::nat) = Suc (Suc 0)" by simp
  show ?thesis
    using s2 by (auto simp: True two s1)
qed

text \<open>
  Claim C2. For every 16-bit \<open>n\<close>, \<^verbatim>\<open>generate_literal\<close> emits the one cell
  \<open>OP_LITERAL | n\<close> when bit 15 of \<open>n\<close> is clear and otherwise the two cells
  \<open>OP_LITERAL | ~n\<close> and \<open>CODE_INVERT\<close>; and a machine that executes the emitted cells,
  one or two instructions from the cell where the literal was emitted, has \<open>n\<close> in
  \<open>tos\<close>. The header must make \<open>CODE_EXIT\<close> an ALU word and give the ALU operation field
  3 to 5 bits, the cell after the literal must lie inside the program space, and the
  cell the literal pushes onto the data stack must not be the \<open>CODE_INVERT\<close> cell.
\<close>

theorem generate_literal_roundtrip:
  assumes "IS_ALU_OP (CODE_EXIT cf)"
    and "3 \<le> ALU_OP_LENGTH cf" and "ALU_OP_LENGTH cf \<le> 5"
    and "unat (pc h) + 1 < MAX_PROGRAM cf"
    and "core v = core (fst (generate_literal cf h a n))"
    and "pc v = pc h"
    and "sp v + 1 \<noteq> pc h + 1"
  shows "generate_literal cf h a n =
           (if \<not> bit n 15 then (emit h (OP_LITERAL OR n), update_fence a (pc h))
            else (emit (emit h (OP_LITERAL OR NOT n)) CODE_INVERT, update_fence a (pc h)))
         \<and> (\<exists>v' w'. h2_steps cf (if \<not> bit n 15 then 1 else 2) v w = Next v' w' \<and> tos v' = n)"
  using generate_literal_eq [OF assms(1)] literal_executes [OF assms] by simp

theorem generate_literal_roundtrip_witness:
  "generate_literal header_spec (h2_new header_spec 8) (assembler_init header_spec 0) 0xFFFF =
     (emit (emit (h2_new header_spec 8) (OP_LITERAL OR NOT 0xFFFF)) CODE_INVERT,
      update_fence (assembler_init header_spec 0) 8)
   \<and> (\<exists>v' w'. h2_steps header_spec 2
          ((emit (emit (h2_new header_spec 8) (OP_LITERAL OR NOT 0xFFFF)) CODE_INVERT)\<lparr> pc := 8 \<rparr>)
          host_empty = Next v' w'
        \<and> tos v' = 0xFFFF)"
proof -
  have ex: "IS_ALU_OP (CODE_EXIT header_spec)"
    by (simp add: CODE_EXIT_def header_spec_def IS_ALU_OP_def OP_ALU_OP_def MK_CODE_def
        MK_RSTACK_def DELTA_N1_def ALU_OP_T_def)
  have p: "pc (h2_new header_spec 8) = 8" "sp (h2_new header_spec 8) = 0x4000"
    by (simp_all add: h2_new_def header_spec_def)
  have g: "generate_literal header_spec (h2_new header_spec 8) (assembler_init header_spec 0) 0xFFFF =
     (emit (emit (h2_new header_spec 8) (OP_LITERAL OR NOT 0xFFFF)) CODE_INVERT,
      update_fence (assembler_init header_spec 0) 8)"
    by (simp add: generate_literal_eq [OF ex] p)
  show ?thesis
    using generate_literal_roundtrip [of header_spec "h2_new header_spec 8"
        "(emit (emit (h2_new header_spec 8) (OP_LITERAL OR NOT 0xFFFF)) CODE_INVERT)\<lparr> pc := 8 \<rparr>"
        "assembler_init header_spec 0" "0xFFFF" host_empty] ex
    by (simp add: g p emit_def) (simp add: header_spec_def)
qed

section \<open>Properties: the peephole optimizer\<close>

lemma rstack_clear: "(p AND MK_RSTACK DELTA_N1 = 0) = (RSTACK p = DELTA_0)"
proof -
  have a: "(p AND 12 = 0) = (\<not> bit p 2 \<and> \<not> bit p 3)"
  proof
    assume e: "p AND 12 = 0"
    have "bit (p AND 12) 2 = bit p 2" "bit (p AND 12) 3 = bit p 3"
      by (simp_all add: bit_simps)
    then show "\<not> bit p 2 \<and> \<not> bit p 3" by (simp add: e)
  next
    assume "\<not> bit p 2 \<and> \<not> bit p 3"
    then show "p AND 12 = 0"
      by (intro cell_eqI) (auto simp: cell_bits)
  qed
  have b: "(drop_bit 2 p AND 3 = 0) = (\<not> bit p 2 \<and> \<not> bit p 3)"
  proof
    assume e: "drop_bit 2 p AND 3 = 0"
    have "bit (drop_bit 2 p AND 3) 0 = bit p 2" "bit (drop_bit 2 p AND 3) 1 = bit p 3"
      by (simp_all add: bit_simps)
    then show "\<not> bit p 2 \<and> \<not> bit p 3" by (simp add: e)
  next
    assume "\<not> bit p 2 \<and> \<not> bit p 3"
    then have "\<not> bit p (Suc (Suc 0))" "\<not> bit p (Suc (Suc (Suc 0)))"
      by (simp_all add: numeral_2_eq_2 numeral_3_eq_3)
    then show "drop_bit 2 p AND 3 = 0"
      by (intro cell_eqI) (auto simp: cell_bits)
  qed
  show ?thesis
    by (simp add: MK_RSTACK_def DELTA_N1_def RSTACK_def DELTA_0_def a b)
qed

lemma exit_not_jump:
  assumes "IS_ALU_OP (CODE_EXIT cf)"
  shows "\<not> IS_CALL (CODE_EXIT cf)" "\<not> IS_LITERAL (CODE_EXIT cf)"
    "\<not> IS_0BRANCH (CODE_EXIT cf)" "\<not> IS_BRANCH (CODE_EXIT cf)"
  using assms by (auto simp: IS_iff)

lemma alu_not_call: "IS_ALU_OP p \<Longrightarrow> \<not> IS_CALL p"
  by (auto simp: IS_iff)

lemma generate_exit:
  assumes "IS_ALU_OP (CODE_EXIT cf)"
  shows "generate cf h a (CODE_EXIT cf) =
    (if mode a AND MODE_OPTIMIZATION_ON \<noteq> 0 \<and> pc h \<noteq> 0 then
       (if uint (pc h) - 1 > uint (fence a) \<and> IS_ALU_OP (core h (pc h - 1)) then
          (if core h (pc h - 1) AND R_TO_PC cf = 0 \<and> RSTACK (core h (pc h - 1)) = DELTA_0 then
             (h\<lparr> core := (core h)(pc h - 1 := core h (pc h - 1) OR CODE_EXIT cf) \<rparr>,
              update_fence a (pc h - 1))
           else (emit h (CODE_EXIT cf), a))
        else if pc h > fence a \<and> IS_CALL (core h (pc h - 1)) then
          (h\<lparr> core := (core h)(pc h - 1 := OP_BRANCH OR (core h (pc h - 1) AND 0x1FFF)) \<rparr>,
           update_fence a (pc h - 1))
        else (emit h (CODE_EXIT cf), a))
     else (emit h (CODE_EXIT cf), a))"
  by (simp add: generate_def Let_def exit_not_jump [OF assms] rstack_clear)


lemma header_spec_exit: "IS_ALU_OP (CODE_EXIT header_spec)" "CODE_EXIT header_spec = 0x700C"
  by (simp_all add: CODE_EXIT_def header_spec_def IS_ALU_OP_def OP_ALU_OP_def MK_CODE_def
        MK_RSTACK_def DELTA_N1_def ALU_OP_T_def)





lemma peephole_rewrite_cases:
  assumes ex: "IS_ALU_OP (CODE_EXIT cf)" and rw: "peephole_rewrite cf h a instruction"
  shows "instruction = CODE_EXIT cf \<and> mode a AND MODE_OPTIMIZATION_ON \<noteq> 0 \<and> pc h \<noteq> 0
    \<and> ((uint (pc h) - 1 > uint (fence a) \<and> IS_ALU_OP (core h (pc h - 1))
          \<and> generate cf h a instruction =
              (h\<lparr> core := (core h)(pc h - 1 := core h (pc h - 1) OR CODE_EXIT cf) \<rparr>,
               update_fence a (pc h - 1)))
        \<or> (pc h > fence a \<and> IS_CALL (core h (pc h - 1))
          \<and> generate cf h a instruction =
              (h\<lparr> core := (core h)(pc h - 1 := OP_BRANCH OR (core h (pc h - 1) AND 0x1FFF)) \<rparr>,
               update_fence a (pc h - 1))))"
proof (cases "instruction = CODE_EXIT cf")
  case False
  with rw show ?thesis
    by (simp add: peephole_rewrite_def generate_other emit_def)
next
  case True
  with rw show ?thesis
    by (auto simp: peephole_rewrite_def generate_exit [OF ex] emit_def split: if_splits)
qed

text \<open>
  Claim C6, as stated: every peephole rewrite of an already emitted cell happens at an
  address strictly greater than the fence. The tail-call rewrite does not: after
  \<^verbatim>\<open>generate\<close> has emitted a call, the fence is the address of that call, and handing
  \<open>CODE_EXIT\<close> to \<^verbatim>\<open>generate\<close> then rewrites the cell at the fence into a branch.
\<close>

theorem peephole_fence_counterexample:
  "peephole_rewrite header_spec (fst after_call) (snd after_call) (CODE_EXIT header_spec)
   \<and> pc (fst after_call) - 1 = fence (snd after_call)
   \<and> core (fst after_call) (fence (snd after_call)) = OP_CALL OR 8
   \<and> core (fst (generate header_spec (fst after_call) (snd after_call) (CODE_EXIT header_spec)))
        (fence (snd after_call)) = OP_BRANCH OR 8"
proof -
  have ne: "OP_CALL OR 8 \<noteq> CODE_EXIT header_spec"
    by (simp add: header_spec_exit OP_CALL_def)
  have ac: "after_call =
    (emit (h2_new header_spec 8) (OP_CALL OR 8),
     update_fence (assembler_init header_spec MODE_OPTIMIZATION_ON) 8)"
    by (simp add: after_call_def generate_other [OF ne] h2_new_def) (simp add: IS_CALL_def OP_CALL_def)
  show ?thesis
    by (simp add: peephole_rewrite_def generate_exit [OF header_spec_exit(1)] ac emit_def
        update_fence_def assembler_init_def MODE_OPTIMIZATION_ON_def h2_new_def)
      (simp add: header_spec_def IS_ALU_OP_def IS_CALL_def OP_CALL_def OP_BRANCH_def)
qed

text \<open>
  Claim C6, amended: whenever \<^verbatim>\<open>generate\<close> rewrites an already emitted cell instead of
  emitting, the cell is the one before \<open>pc\<close> and no other cell changes; its address is
  never below the fence; an EXIT merge (the previous cell is an ALU word) happens only
  at an address strictly greater than the fence, a tail-call rewrite (the previous cell
  is a call) at an address greater than or equal to the fence.
\<close>

theorem peephole_fence:
  assumes "IS_ALU_OP (CODE_EXIT cf)" and "peephole_rewrite cf h a instruction"
  shows "uint (fence a) \<le> uint (pc h) - 1
    \<and> (IS_ALU_OP (core h (pc h - 1)) \<longrightarrow> uint (fence a) < uint (pc h) - 1)
    \<and> (\<forall>x. x \<noteq> pc h - 1 \<longrightarrow> core (fst (generate cf h a instruction)) x = core h x)"
  using peephole_rewrite_cases [OF assms]
  by (auto simp: word_less_def alu_not_call)

theorem peephole_fence_witness:
  "uint (fence (snd after_call)) \<le> uint (pc (fst after_call)) - 1
   \<and> core (fst (generate header_spec (fst after_call) (snd after_call) (CODE_EXIT header_spec))) 7
       = core (fst after_call) 7"
proof -
  have ne: "OP_CALL OR 8 \<noteq> CODE_EXIT header_spec"
    by (simp add: header_spec_exit OP_CALL_def)
  have ac: "after_call =
    (emit (h2_new header_spec 8) (OP_CALL OR 8),
     update_fence (assembler_init header_spec MODE_OPTIMIZATION_ON) 8)"
    by (simp add: after_call_def generate_other [OF ne] h2_new_def) (simp add: IS_CALL_def OP_CALL_def)
  have rw: "peephole_rewrite header_spec (fst after_call) (snd after_call) (CODE_EXIT header_spec)"
    by (simp add: peephole_rewrite_def generate_exit [OF header_spec_exit(1)] ac emit_def
        update_fence_def assembler_init_def MODE_OPTIMIZATION_ON_def h2_new_def)
      (simp add: header_spec_def IS_ALU_OP_def IS_CALL_def OP_CALL_def)
  have p: "pc (fst after_call) - 1 = 8"
    by (simp add: ac emit_def h2_new_def)
  show ?thesis
    using peephole_fence [OF header_spec_exit(1) rw] by (simp add: p)
qed

section \<open>Properties: assembling definitions\<close>

lemmas asm_defs = definition_head_def here_def hole_def fix_cell_def symbol_table_add_def
  assemble_literal_def assemble_call_definition_def assemble_instruction_def lexer_to_alu_op_def
  p_id_def p_number_def update_fence_def emit_def

lemma low_addr: "unat (v::cell) < 8192 \<Longrightarrow> v AND 0xE000 = 0"
proof -
  assume "unat v < 8192"
  then have "v < 2 ^ 13" by (simp add: word_less_nat_alt)
  then have "v AND mask 13 = v" by (simp add: less_mask_eq)
  then have "v AND 0xE000 = (v AND mask 13) AND 0xE000" by simp
  also have "\<dots> = v AND (mask 13 AND 0xE000)" by (simp add: and.assoc)
  also have "\<dots> = 0" by (simp add: mask_numeral)
  finally show ?thesis .
qed

lemma call_cell:
  assumes "v AND 0xE000 = 0"
  shows "IS_CALL (OP_CALL OR v)" "(OP_CALL OR v) AND 0x1FFF = v" "OP_BRANCH OR v = v"
proof -
  from assms have b: "\<not> bit v 15" "\<not> bit v 14" "\<not> bit v 13"
    using prefix_bits [of v 0] by simp_all
  show "IS_CALL (OP_CALL OR v)"
    using b by (simp add: IS_iff OP_CALL_def bit_simps)
  show "(OP_CALL OR v) AND 0x1FFF = v"
    using b by (intro cell_eqI) (auto simp: cell_bits OP_CALL_def)
  show "OP_BRANCH OR v = v" by (simp add: OP_BRANCH_def)
qed

lemma generate_call:
  assumes "IS_ALU_OP (CODE_EXIT cf)" and "v AND 0xE000 = 0"
  shows "generate cf h a (OP_CALL OR v) = (emit h (OP_CALL OR v), update_fence a (pc h))"
proof -
  have "OP_CALL OR v \<noteq> CODE_EXIT cf"
    using assms call_cell(1) [OF assms(2)] by (auto simp: IS_iff)
  then show ?thesis
    by (simp add: generate_other call_cell(1) [OF assms(2)])
qed

lemma literal_not_call: "\<not> IS_CALL (OP_LITERAL OR x)" "\<not> IS_ALU_OP (OP_LITERAL OR x)"
  using IS_LITERAL_OP_LITERAL [of x] by (auto simp: IS_iff)

lemma succ_unat:
  assumes "unat (s::cell) + 3 < 8192"
  shows "unat (s + 1) = unat s + 1" "unat (s + 2) = unat s + 2" "unat (s + 3) = unat s + 3"
proof -
  have "unat s + unat (1::cell) < 2 ^ LENGTH(16)" "unat s + unat (2::cell) < 2 ^ LENGTH(16)"
      "unat s + unat (3::cell) < 2 ^ LENGTH(16)"
    using assms by simp_all
  then have "unat (s + 1) = unat s + unat (1::cell)" "unat (s + 2) = unat s + unat (2::cell)"
      "unat (s + 3) = unat s + unat (3::cell)"
    by (simp_all only: unat_add_lem)
  then show "unat (s + 1) = unat s + 1" "unat (s + 2) = unat s + 2" "unat (s + 3) = unat s + 3"
    by simp_all
qed

lemma succ_order:
  assumes "unat (s::cell) + 3 < 8192"
  shows "s < s + 1" "s + 2 < s + 3" "s \<le> s + 2" "s + 1 \<noteq> 0" "s + 3 \<noteq> 0"
    "\<not> uint s < uint (s + 1) - 1" "\<not> uint (s + 2) < uint (s + 3) - 1"
proof -
  note u = succ_unat [OF assms]
  show "s < s + 1" "s + 2 < s + 3" "s \<le> s + 2"
    unfolding word_less_nat_alt word_le_nat_alt u by simp_all
  have "unat (s + 1) \<noteq> 0" "unat (s + 3) \<noteq> 0" unfolding u by simp_all
  then show "s + 1 \<noteq> 0" "s + 3 \<noteq> 0" by auto
  show "\<not> uint s < uint (s + 1) - 1" "\<not> uint (s + 2) < uint (s + 3) - 1"
    unfolding uint_nat u by simp_all
qed

lemma succ_room:
  assumes "unat (s::cell) + 3 < 8192" and "unat s + 3 < M"
  shows "unat s < M" "\<not> M < unat s" "unat (s + 2) < M" "\<not> M < unat (s + 2)"
    "unat (s + 1) < M" "\<not> M < unat (s + 1)"
  unfolding succ_unat [OF assms(1)] using assms(2) by simp_all

lemma a_b_generic:
  assumes ex: "IS_ALU_OP (CODE_EXIT cf)"
    and room: "unat (START_ADDR cf) + 3 < MAX_PROGRAM cf"
    and enc: "unat (START_ADDR cf) + 3 < 8192"
  shows "assemble cf prog_a_b (h2_new cf (START_ADDR cf), assembler_init cf MODE_OPTIMIZATION_ON, []) =
    Inr ((h2_new cf (START_ADDR cf))
           \<lparr> core := (core (h2_new cf (START_ADDR cf)))
                (START_ADDR cf := OP_LITERAL OR 1,
                 START_ADDR cf + 1 := CODE_EXIT cf,
                 START_ADDR cf + 2 := OP_BRANCH OR START_ADDR cf),
             pc := START_ADDR cf + 3 \<rparr>,
         (assembler_init cf MODE_OPTIMIZATION_ON)\<lparr> fence := START_ADDR cf + 2 \<rparr>,
         [\<lparr> id = ''a'', val = START_ADDR cf, type = SYMBOL_TYPE_CALL, hidden = False \<rparr>,
          \<lparr> id = ''b'', val = START_ADDR cf + 2, type = SYMBOL_TYPE_CALL, hidden = False \<rparr>])"
proof -
  define p0 where "p0 = START_ADDR cf"
  define p1 where "p1 = p0 + 1"
  define p2 where "p2 = p0 + 2"
  define p3 where "p3 = p0 + 3"
  have enc': "unat p0 + 3 < 8192" and room': "unat p0 + 3 < MAX_PROGRAM cf"
    using enc room by (simp_all add: p0_def)
  note so = succ_order [OF enc', folded p1_def p2_def p3_def]
    and sr = succ_room [OF enc' room', folded p1_def p2_def p3_def]
  have lo: "p0 AND 0xE000 = 0" using enc' by (intro low_addr) simp
  have mx: "max p0 p2 = p2" using so(3) by (simp add: max_def)
  have st: "p0 + 1 = p1" "p1 + 1 = p2" "p2 + 1 = p3" "p1 - 1 = p0" "p3 - 1 = p2"
    by (simp_all add: p1_def p2_def p3_def)
  have "assemble cf prog_a_b (h2_new cf p0, assembler_init cf MODE_OPTIMIZATION_ON, []) =
    Inr ((h2_new cf p0)
           \<lparr> core := (core (h2_new cf p0))
                (p0 := OP_LITERAL OR 1, p1 := CODE_EXIT cf, p2 := OP_BRANCH OR p0),
             pc := p3 \<rparr>,
         (assembler_init cf MODE_OPTIMIZATION_ON)\<lparr> fence := p2 \<rparr>,
         [\<lparr> id = ''a'', val = p0, type = SYMBOL_TYPE_CALL, hidden = False \<rparr>,
          \<lparr> id = ''b'', val = p2, type = SYMBOL_TYPE_CALL, hidden = False \<rparr>])"
    by (simp add: prog_a_b_def asm_defs h2_new_def assembler_init_def MODE_OPTIMIZATION_ON_def
      MODE_COMPILE_WORD_HEADER_def DEFINE_HIDDEN_def generate_literal_eq [OF ex]
      generate_exit [OF ex] generate_call [OF ex lo] so sr mx st literal_not_call call_cell [OF lo]
      p0_def [symmetric])
  then show ?thesis
    by (simp only: p0_def p1_def p2_def p3_def)
qed

text \<open>
  Claim C7. Assembling \<^verbatim>\<open>: a 1 ; : b a ;\<close> with \<^verbatim>\<open>MODE_OPTIMIZATION_ON\<close> (and no word
  headers), from the state \<^verbatim>\<open>code\<close> starts in, succeeds; \<open>a\<close> is the call symbol at the
  start address, \<open>b\<close> the call symbol two cells on, and the body of \<open>b\<close> is the single cell
  \<open>OP_BRANCH | a\<close>: the call was rewritten to a branch and no \<open>CODE_EXIT\<close> follows it (the
  next cell is free and as \<^verbatim>\<open>h2_new\<close> left it). The header must make \<open>CODE_EXIT\<close> an ALU
  word, and the three cells must fit in the program space and in the 13 address bits.
\<close>

theorem tail_call_a_b:
  assumes "IS_ALU_OP (CODE_EXIT cf)"
    and "unat (START_ADDR cf) + 3 < MAX_PROGRAM cf"
    and "unat (START_ADDR cf) + 3 < 8192"
  shows "case assemble cf prog_a_b
            (h2_new cf (START_ADDR cf), assembler_init cf MODE_OPTIMIZATION_ON, []) of
           Inl e \<Rightarrow> False
         | Inr (h, a, t) \<Rightarrow>
             map (\<lambda>s. (id s, val s, type s)) t =
               [(''a'', START_ADDR cf, SYMBOL_TYPE_CALL), (''b'', START_ADDR cf + 2, SYMBOL_TYPE_CALL)]
             \<and> core h (START_ADDR cf + 2) = OP_BRANCH OR START_ADDR cf
             \<and> pc h = START_ADDR cf + 3
             \<and> core h (START_ADDR cf + 3) = core (h2_new cf (START_ADDR cf)) (START_ADDR cf + 3)"
  by (simp add: a_b_generic [OF assms])

theorem tail_call_a_b_witness:
  "case assemble header_spec prog_a_b
            (h2_new header_spec 8, assembler_init header_spec MODE_OPTIMIZATION_ON, []) of
           Inl e \<Rightarrow> False
         | Inr (h, a, t) \<Rightarrow>
             map (\<lambda>s. (id s, val s, type s)) t =
               [(''a'', 8, SYMBOL_TYPE_CALL), (''b'', 10, SYMBOL_TYPE_CALL)]
             \<and> core h 10 = OP_BRANCH OR 8 \<and> pc h = 11 \<and> core h 11 = 0"
proof -
  have s: "START_ADDR header_spec = 8" "MAX_PROGRAM header_spec = 8192"
    by (simp_all add: header_spec_def)
  have z: "core (h2_new header_spec 8) 11 = 0" and n: "(8::cell) + 2 = 10" "(8::cell) + 3 = 11"
    by (simp_all add: h2_new_def)
  have r: "unat (START_ADDR header_spec) + 3 < MAX_PROGRAM header_spec"
      "unat (START_ADDR header_spec) + 3 < 8192"
    by (simp_all add: s)
  show ?thesis
    using tail_call_a_b [of header_spec, OF header_spec_exit(1) r]
    unfolding s n z .
qed

lemma id_dup_generic:
  assumes ex: "IS_ALU_OP (CODE_EXIT cf)"
    and room: "unat (START_ADDR cf) + 3 < MAX_PROGRAM cf"
    and enc: "unat (START_ADDR cf) + 3 < 8192"
    and tab: "map_of (X_MACRO_INSTRUCTIONS cf) ''dup'' = Some (d, w)"
    and alu: "IS_ALU_OP w" and ne: "w \<noteq> CODE_EXIT cf"
  shows "assemble cf prog_id_dup (h2_new cf (START_ADDR cf), assembler_init cf MODE_OPTIMIZATION_ON, []) =
    Inr ((h2_new cf (START_ADDR cf))
           \<lparr> core := (core (h2_new cf (START_ADDR cf)))
                (START_ADDR cf := w, START_ADDR cf + 1 := CODE_EXIT cf),
             pc := START_ADDR cf + 2 \<rparr>,
         assembler_init cf MODE_OPTIMIZATION_ON,
         [\<lparr> id = ''id'', val = START_ADDR cf, type = SYMBOL_TYPE_CALL, hidden = False \<rparr>])"
proof -
  define p0 where "p0 = START_ADDR cf"
  define p1 where "p1 = p0 + 1"
  define p2 where "p2 = p0 + 2"
  define p3 where "p3 = p0 + 3"
  have enc': "unat p0 + 3 < 8192" and room': "unat p0 + 3 < MAX_PROGRAM cf"
    using enc room by (simp_all add: p0_def)
  note so = succ_order [OF enc', folded p1_def p2_def p3_def]
    and sr = succ_room [OF enc' room', folded p1_def p2_def p3_def]
  have st: "p0 + 1 = p1" "p1 + 1 = p2" "p1 - 1 = p0"
    by (simp_all add: p1_def p2_def)
  have cl: "\<not> IS_CALL w" "\<not> IS_LITERAL w" "\<not> IS_0BRANCH w" "\<not> IS_BRANCH w"
    using alu by (auto simp: IS_iff)
  have "assemble cf prog_id_dup (h2_new cf p0, assembler_init cf MODE_OPTIMIZATION_ON, []) =
    Inr ((h2_new cf p0)\<lparr> core := (core (h2_new cf p0))(p0 := w, p1 := CODE_EXIT cf), pc := p2 \<rparr>,
         assembler_init cf MODE_OPTIMIZATION_ON,
         [\<lparr> id = ''id'', val = p0, type = SYMBOL_TYPE_CALL, hidden = False \<rparr>])"
    by (simp add: prog_id_dup_def asm_defs h2_new_def assembler_init_def MODE_OPTIMIZATION_ON_def
      MODE_COMPILE_WORD_HEADER_def DEFINE_HIDDEN_def tab generate_other [OF ne] cl
      generate_exit [OF ex] so sr st alu p0_def [symmetric])
  then show ?thesis
    by (simp only: p0_def p1_def p2_def p3_def)
qed

text \<open>
  Claim C5, as stated: assembling \<^verbatim>\<open>: id dup ;\<close> with \<^verbatim>\<open>MODE_OPTIMIZATION_ON\<close> emits one
  cell, \<open>dup\<close> merged with the exit. It emits two: with the header of the specification's
  layout, cell 8 is the word of \<open>dup\<close> unchanged, cell 9 is \<open>CODE_EXIT\<close>, and \<open>pc\<close> ends
  at 10.
\<close>

theorem id_dup_counterexample:
  "case assemble header_spec prog_id_dup
          (h2_new header_spec 8, assembler_init header_spec MODE_OPTIMIZATION_ON, []) of
     Inl e \<Rightarrow> False
   | Inr (h, a, t) \<Rightarrow>
       core h 8 = 0x6081 \<and> core h 8 \<noteq> 0x6081 OR CODE_EXIT header_spec
       \<and> core h 9 = CODE_EXIT header_spec \<and> pc h = 10"
proof -
  have s: "START_ADDR header_spec = 8" "MAX_PROGRAM header_spec = 8192"
    and t: "map_of (X_MACRO_INSTRUCTIONS header_spec) ''dup'' = Some (True, 0x6081)"
    by (simp_all add: header_spec_def)
  have w: "IS_ALU_OP (0x6081 :: cell)" "(0x6081 :: cell) \<noteq> CODE_EXIT header_spec"
    by (simp_all add: IS_ALU_OP_def header_spec_exit)
  have r: "unat (START_ADDR header_spec) + 3 < MAX_PROGRAM header_spec"
      "unat (START_ADDR header_spec) + 3 < 8192"
    by (simp_all add: s)
  show ?thesis
    by (simp add: id_dup_generic [OF header_spec_exit(1) r t w, unfolded s] header_spec_exit(2))
qed

text \<open>
  Claim C5, amended: assembling \<^verbatim>\<open>: id dup ;\<close> with \<^verbatim>\<open>MODE_OPTIMIZATION_ON\<close> (and no
  word headers) emits two cells for the body of the definition, the ALU word of \<open>dup\<close>
  followed by a separate \<open>CODE_EXIT\<close>. The \<open>dup\<close> cell is the first cell of the
  definition, at the address to which \<^verbatim>\<open>here\<close> raised the fence when the symbol \<open>id\<close>
  was entered; it is at the fence, not past it, so the EXIT merge does not apply. This
  holds for every header in which \<open>CODE_EXIT\<close> and the word of \<open>dup\<close> are distinct ALU
  words and the cells fit in the program space.
\<close>

theorem id_dup_two_cells:
  assumes "IS_ALU_OP (CODE_EXIT cf)"
    and "unat (START_ADDR cf) + 3 < MAX_PROGRAM cf"
    and "unat (START_ADDR cf) + 3 < 8192"
    and "map_of (X_MACRO_INSTRUCTIONS cf) ''dup'' = Some (d, w)"
    and "IS_ALU_OP w" and "w \<noteq> CODE_EXIT cf"
  shows "case assemble cf prog_id_dup
            (h2_new cf (START_ADDR cf), assembler_init cf MODE_OPTIMIZATION_ON, []) of
           Inl e \<Rightarrow> False
         | Inr (h, a, t) \<Rightarrow>
             core h (START_ADDR cf) = w \<and> core h (START_ADDR cf + 1) = CODE_EXIT cf
             \<and> pc h = START_ADDR cf + 2 \<and> fence a = START_ADDR cf"
  unfolding id_dup_generic [OF assms] by (simp add: assembler_init_def)

theorem id_dup_two_cells_witness:
  "case assemble header_wide prog_id_dup
          (h2_new header_wide 8, assembler_init header_wide MODE_OPTIMIZATION_ON, []) of
     Inl e \<Rightarrow> False
   | Inr (h, a, t) \<Rightarrow>
       core h 8 = 0x6081 \<and> core h (8 + 1) = CODE_EXIT header_wide \<and> pc h = 8 + 2 \<and> fence a = 8"
proof -
  have s: "START_ADDR header_wide = 8" "MAX_PROGRAM header_wide = 8192"
    and t: "map_of (X_MACRO_INSTRUCTIONS header_wide) ''dup'' = Some (True, 0x6081)"
    by (simp_all add: header_wide_def)
  have e: "IS_ALU_OP (CODE_EXIT header_wide)" "CODE_EXIT header_wide = 0x601C"
    by (simp_all add: CODE_EXIT_def header_wide_def IS_ALU_OP_def OP_ALU_OP_def MK_CODE_def
        MK_RSTACK_def DELTA_N1_def ALU_OP_T_def)
  have w: "IS_ALU_OP (0x6081 :: cell)" "(0x6081 :: cell) \<noteq> CODE_EXIT header_wide"
    by (simp_all add: IS_ALU_OP_def e)
  have r: "unat (START_ADDR header_wide) + 3 < MAX_PROGRAM header_wide"
      "unat (START_ADDR header_wide) + 3 < 8192"
    by (simp_all add: s)
  show ?thesis
    using id_dup_two_cells [of header_wide True "0x6081", OF e(1) r t w]
    unfolding s .
qed

section \<open>Properties: jumps to call symbols\<close>

lemma assemble_list_append:
  "assemble_list cf (ns @ ms) s =
     (case assemble_list cf ns s of Inl e \<Rightarrow> Inl e | Inr s1 \<Rightarrow> assemble_list cf ms s1)"
  by (induction ns arbitrary: s) (auto split: sum.splits)

lemma jump_to_call:
  assumes "symbol_table_lookup t i = Some s" and "type s = SYMBOL_TYPE_CALL"
    and "tok = LEX_IDENTIFIER i \<or> tok = LEX_STRING i" and "ty \<noteq> JUMP_CALL"
  shows "generate_jump cf h a t tok ty = Inl (BranchToCall i)"
  using assms by (auto simp: generate_jump_def jump_symbol_def)

lemma branch_to_call_node:
  assumes "symbol_table_lookup t i = Some s" and "type s = SYMBOL_TYPE_CALL"
    and "tok = LEX_IDENTIFIER i \<or> tok = LEX_STRING i"
  shows "assemble cf (SYM_BRANCH tok) (h, a, t) =
           (if unat (pc h) > MAX_PROGRAM cf then Inl (Overflow (pc h)) else Inl (BranchToCall i))"
    and "assemble cf (SYM_0BRANCH tok) (h, a, t) =
           (if unat (pc h) > MAX_PROGRAM cf then Inl (Overflow (pc h)) else Inl (BranchToCall i))"
  using assms by (simp_all add: assemble_jump_def jump_to_call)

lemma call_to_call_node:
  assumes "symbol_table_lookup t i = Some s"
    and "tok = LEX_IDENTIFIER i \<or> tok = LEX_STRING i"
    and "IS_ALU_OP (CODE_EXIT cf)" and "unat (pc h) \<le> MAX_PROGRAM cf"
    and "unat (val s) \<le> MAX_PROGRAM cf" and "val s AND 0xE000 = 0"
  shows "assemble cf (SYM_CALL tok) (h, a, t) =
           Inr (emit h (OP_CALL OR val s), update_fence a (pc h), t)"
  using assms
  by (auto simp: assemble_jump_def generate_jump_def jump_symbol_def generate_call not_less [symmetric])

lemma assemble_calls_error:
  "assemble_calls cf n s m s' \<Longrightarrow> assemble cf m s' = Inl e \<Longrightarrow> assemble cf n s = Inl e"
  "assemble_list_calls cf ns s m s' \<Longrightarrow> assemble cf m s' = Inl e
     \<Longrightarrow> assemble_list cf ns s = Inl e"
  by (induction rule: assemble_calls_assemble_list_calls.inducts) simp_all

text \<open>A statement at the top level of a program, after the statements before it have
  been assembled, is one of the calls; so are the statements nested in it.\<close>

lemma assemble_list_reaches:
  "assemble_list cf ns s0 = Inr s \<Longrightarrow> assemble_list_calls cf (ns @ n # ms) s0 n s"
proof (induction ns arbitrary: s0)
  case Nil
  then show ?case by (simp add: in_list_head itself)
next
  case (Cons k ns)
  then show ?case by (auto split: sum.splits intro: in_list_tail)
qed

lemma at_branch_f_reached:
  "assemble_calls header_spec prog_branch_f
     (h2_new header_spec (START_ADDR header_spec), assembler_init header_spec 0, [])
     (SYM_BRANCH (LEX_IDENTIFIER ''f'')) at_branch_f"
proof -
  have p: "\<not> MAX_PROGRAM header_spec < unat (pc (h2_new header_spec 8))"
    by (simp add: h2_new_def header_spec_def)
  have d: "definition_head header_spec 0 (LEX_IDENTIFIER ''f'')
      (h2_new header_spec 8, assembler_init header_spec 0, []) = Inr at_branch_f"
    by (simp add: definition_head_def assembler_init_def p_id_def here_def h2_new_def
        header_spec_def symbol_table_add_def update_fence_def MODE_COMPILE_WORD_HEADER_def
        at_branch_f_def)
  have "assemble_calls header_spec (SYM_STATEMENTS [SYM_BRANCH (LEX_IDENTIFIER ''f'')])
      at_branch_f (SYM_BRANCH (LEX_IDENTIFIER ''f'')) at_branch_f"
    unfolding at_branch_f_def using p by (auto intro!: in_statements in_list_head itself)
  then have "assemble_calls header_spec
      (SYM_DEFINITION 0 (LEX_IDENTIFIER ''f'') (SYM_STATEMENTS [SYM_BRANCH (LEX_IDENTIFIER ''f'')]))
      (h2_new header_spec 8, assembler_init header_spec 0, [])
      (SYM_BRANCH (LEX_IDENTIFIER ''f'')) at_branch_f"
    using p d by (rule in_definition [rotated 2])
  then have "assemble_calls header_spec prog_branch_f
      (h2_new header_spec 8, assembler_init header_spec 0, [])
      (SYM_BRANCH (LEX_IDENTIFIER ''f'')) at_branch_f"
    unfolding prog_branch_f_def using p
    by (auto intro!: in_program in_statements in_list_head)
  then show ?thesis by (simp add: header_spec_def)
qed

text \<open>
  Claim C8. When the target of a \<^verbatim>\<open>branch\<close> or \<^verbatim>\<open>0branch\<close> statement is an identifier (or
  a string) that the symbol table resolves to a call-typed symbol, \<^verbatim>\<open>assemble\<close> ends with
  an error at that statement (the branch-to-call error, unless \<open>pc\<close> has already
  overflowed). Every run of \<^verbatim>\<open>assemble\<close> that comes to the statement, wherever the
  statement is (at the top level of the program, or nested at any depth in definitions,
  conditionals and loops), ends with that same error, and \<^verbatim>\<open>code\<close> gives no memory image
  for a program whose assembly comes to it. The same identifier as the target of a
  \<^verbatim>\<open>call\<close> statement is assembled into exactly one cell: the cell at \<open>pc\<close> becomes
  \<open>OP_CALL | value\<close>, no other cell changes, \<open>pc\<close> moves on by one and the fence is raised to
  the address of the call; this when the value is a program address (at most
  \<^verbatim>\<open>MAX_PROGRAM\<close>, within the 13 address bits), as the value of every call symbol entered
  by \<^verbatim>\<open>assemble\<close> is.
\<close>

theorem branch_to_call_rejected:
  assumes "symbol_table_lookup t i = Some s" and "type s = SYMBOL_TYPE_CALL"
    and "tok = LEX_IDENTIFIER i \<or> tok = LEX_STRING i"
    and "n = SYM_BRANCH tok \<or> n = SYM_0BRANCH tok"
  shows "(\<exists>e. assemble cf n (h, a, t) = Inl e)
    \<and> (unat (pc h) \<le> MAX_PROGRAM cf \<longrightarrow> assemble cf n (h, a, t) = Inl (BranchToCall i))
    \<and> (\<forall>n0 s0. assemble_calls cf n0 s0 n (h, a, t) \<longrightarrow>
          assemble cf n0 s0 = assemble cf n (h, a, t))
    \<and> (\<forall>ns ms s0. assemble_list cf ns s0 = Inr (h, a, t) \<longrightarrow>
          assemble_list cf (ns @ n # ms) s0 = assemble cf n (h, a, t))
    \<and> (\<forall>n0 symbols.
          assemble_calls cf n0
            (h2_new cf (START_ADDR cf), assembler_init cf 0, symbols) n (h, a, t) \<longrightarrow>
          (\<exists>e. code cf n0 symbols = Inl e)
          \<and> (unat (pc h) \<le> MAX_PROGRAM cf \<longrightarrow> code cf n0 symbols = Inl (BranchToCall i)))
    \<and> (IS_ALU_OP (CODE_EXIT cf) \<and> unat (pc h) \<le> MAX_PROGRAM cf
          \<and> unat (val s) \<le> MAX_PROGRAM cf \<and> val s AND 0xE000 = 0 \<longrightarrow>
        assemble cf (SYM_CALL tok) (h, a, t) =
          Inr (h\<lparr> core := (core h)(pc h := OP_CALL OR val s), pc := pc h + 1 \<rparr>,
               a\<lparr> fence := max (fence a) (pc h) \<rparr>, t))"
proof -
  have f1: "\<exists>e. assemble cf n (h, a, t) = Inl e"
    using assms branch_to_call_node [OF assms(1-3), of cf h a] by auto
  then obtain e where e: "assemble cf n (h, a, t) = Inl e" ..
  have f2: "unat (pc h) \<le> MAX_PROGRAM cf \<longrightarrow> assemble cf n (h, a, t) = Inl (BranchToCall i)"
    using assms branch_to_call_node [OF assms(1-3), of cf h a] by auto
  have r: "assemble cf n0 s0 = assemble cf n (h, a, t)"
    if "assemble_calls cf n0 s0 n (h, a, t)" for n0 s0
    using assemble_calls_error(1) [OF that e] e by simp
  have l: "assemble_list cf (ns @ n # ms) s0 = assemble cf n (h, a, t)"
    if "assemble_list cf ns s0 = Inr (h, a, t)" for ns ms s0
    using assemble_calls_error(2) [OF assemble_list_reaches [OF that] e] e by simp
  have c: "code cf n0 symbols = Inl e"
    if "assemble_calls cf n0 (h2_new cf (START_ADDR cf), assembler_init cf 0, symbols) n (h, a, t)"
    for n0 symbols
    using r [OF that] e by (simp add: code_def Let_def h2_new_def assembler_init_def)
  have f3: "\<forall>n0 s0. assemble_calls cf n0 s0 n (h, a, t) \<longrightarrow>
          assemble cf n0 s0 = assemble cf n (h, a, t)"
    using r by blast
  have f4: "\<forall>ns ms s0. assemble_list cf ns s0 = Inr (h, a, t) \<longrightarrow>
          assemble_list cf (ns @ n # ms) s0 = assemble cf n (h, a, t)"
    using l by blast
  have f5: "\<forall>n0 symbols.
          assemble_calls cf n0
            (h2_new cf (START_ADDR cf), assembler_init cf 0, symbols) n (h, a, t) \<longrightarrow>
          (\<exists>e. code cf n0 symbols = Inl e)
          \<and> (unat (pc h) \<le> MAX_PROGRAM cf \<longrightarrow> code cf n0 symbols = Inl (BranchToCall i))"
  proof (intro allI impI conjI)
    fix n0 symbols
    assume k: "assemble_calls cf n0
            (h2_new cf (START_ADDR cf), assembler_init cf 0, symbols) n (h, a, t)"
    show "\<exists>e. code cf n0 symbols = Inl e"
      using c [OF k] by blast
    assume "unat (pc h) \<le> MAX_PROGRAM cf"
    with f2 e have "e = BranchToCall i" by simp
    then show "code cf n0 symbols = Inl (BranchToCall i)"
      using c [OF k] by simp
  qed
  have f6: "IS_ALU_OP (CODE_EXIT cf) \<and> unat (pc h) \<le> MAX_PROGRAM cf
          \<and> unat (val s) \<le> MAX_PROGRAM cf \<and> val s AND 0xE000 = 0 \<longrightarrow>
        assemble cf (SYM_CALL tok) (h, a, t) =
          Inr (h\<lparr> core := (core h)(pc h := OP_CALL OR val s), pc := pc h + 1 \<rparr>,
               a\<lparr> fence := max (fence a) (pc h) \<rparr>, t)"
  proof (intro impI, elim conjE)
    assume "IS_ALU_OP (CODE_EXIT cf)" "unat (pc h) \<le> MAX_PROGRAM cf"
      "unat (val s) \<le> MAX_PROGRAM cf" "val s AND 0xE000 = 0"
    from call_to_call_node [OF assms(1) assms(3) this]
    show "assemble cf (SYM_CALL tok) (h, a, t) =
          Inr (h\<lparr> core := (core h)(pc h := OP_CALL OR val s), pc := pc h + 1 \<rparr>,
               a\<lparr> fence := max (fence a) (pc h) \<rparr>, t)"
      by (simp add: emit_def update_fence_def)
  qed
  show ?thesis
    by (intro conjI) (rule f1, rule f2, rule f3, rule f4, rule f5, rule f6)
qed

theorem branch_to_call_rejected_witness:
  "code header_spec prog_branch_f [] = Inl (BranchToCall ''f'')
   \<and> assemble header_spec (SYM_0BRANCH (LEX_IDENTIFIER ''f'')) at_branch_f
       = Inl (BranchToCall ''f'')
   \<and> assemble header_spec (SYM_CALL (LEX_IDENTIFIER ''f'')) at_branch_f =
     Inr ((h2_new header_spec 8)\<lparr> core := (core (h2_new header_spec 8))(8 := 0x4008), pc := 9 \<rparr>,
          (assembler_init header_spec 0)\<lparr> in_definition := True, fence := 8 \<rparr>,
          [\<lparr> id = ''f'', val = 8, type = SYMBOL_TYPE_CALL, hidden = False \<rparr>])"
proof -
  let ?s = "\<lparr> id = ''f'', val = 8, type = SYMBOL_TYPE_CALL, hidden = False \<rparr>"
  let ?h = "h2_new header_spec 8"
  let ?a = "(assembler_init header_spec 0)\<lparr> in_definition := True \<rparr>"
  have 1: "symbol_table_lookup [?s] ''f'' = Some ?s" and 2: "type ?s = SYMBOL_TYPE_CALL"
    and 3: "LEX_IDENTIFIER ''f'' = LEX_IDENTIFIER ''f'' \<or> LEX_IDENTIFIER ''f'' = LEX_STRING ''f''"
    and 4: "SYM_BRANCH (LEX_IDENTIFIER ''f'') = SYM_BRANCH (LEX_IDENTIFIER ''f'')
            \<or> SYM_BRANCH (LEX_IDENTIFIER ''f'') = SYM_0BRANCH (LEX_IDENTIFIER ''f'')"
    and 5: "SYM_0BRANCH (LEX_IDENTIFIER ''f'') = SYM_BRANCH (LEX_IDENTIFIER ''f'')
            \<or> SYM_0BRANCH (LEX_IDENTIFIER ''f'') = SYM_0BRANCH (LEX_IDENTIFIER ''f'')"
    by simp_all
  have 6: "unat (pc ?h) \<le> MAX_PROGRAM header_spec" "unat (val ?s) \<le> MAX_PROGRAM header_spec"
      "val ?s AND 0xE000 = 0"
    by (simp_all add: h2_new_def header_spec_def)
  have st: "at_branch_f = (?h, ?a, [?s])"
    by (simp add: at_branch_f_def)
  have x: "code header_spec prog_branch_f [] = Inl (BranchToCall ''f'')"
    using branch_to_call_rejected [OF 1 2 3 4, of header_spec ?h ?a] 6(1)
      at_branch_f_reached [unfolded st] by blast
  have y: "assemble header_spec (SYM_0BRANCH (LEX_IDENTIFIER ''f'')) (?h, ?a, [?s])
       = Inl (BranchToCall ''f'')"
    using branch_to_call_rejected [OF 1 2 3 5, of header_spec ?h ?a] 6(1) by blast
  have z: "assemble header_spec (SYM_CALL (LEX_IDENTIFIER ''f'')) (?h, ?a, [?s]) =
     Inr (?h\<lparr> core := (core ?h)(pc ?h := OP_CALL OR val ?s), pc := pc ?h + 1 \<rparr>,
          ?a\<lparr> fence := max (fence ?a) (pc ?h) \<rparr>, [?s])"
    using branch_to_call_rejected [OF 1 2 3 4, of header_spec ?h ?a] header_spec_exit(1) 6
    by blast
  have v: "pc ?h = 8" "(8::cell) + 1 = 9" "OP_CALL OR val ?s = 0x4008"
      "?a\<lparr> fence := max (fence ?a) 8 \<rparr> = ?a\<lparr> fence := 8 \<rparr>"
    by (simp_all add: h2_new_def OP_CALL_def assembler_init_def header_spec_def)
  have z': "assemble header_spec (SYM_CALL (LEX_IDENTIFIER ''f'')) (?h, ?a, [?s]) =
     Inr (?h\<lparr> core := (core ?h)(8 := 0x4008), pc := 9 \<rparr>, ?a\<lparr> fence := 8 \<rparr>, [?s])"
    using z unfolding v .
  show ?thesis
    unfolding st by (intro conjI) (rule x, rule y, rule z')
qed

section \<open>Properties: variables and locations\<close>

lemma ebind_Inr:
  "ebind x f = Inr y \<longleftrightarrow> (\<exists>v. x = Inr v \<and> f v = Inr y)"
  by (cases x) simp_all



















section \<open>Properties: numeric tokens\<close>

lemma digit_facts:
  assumes "isdigit c"
  shows "isgraph c" "c \<noteq> CHR ''-''" "c \<noteq> CHR ''$''" "numeric c 10"
    "map_char_to_number c = Inr (of_nat (of_char c - 48))"
  using assms by (auto simp: isdigit_def isgraph_def numeric_def map_char_to_number_def)

lemma graph_loop_word:
  assumes "list_all isgraph w" and "length ident + length w \<le> 255"
    and "rest = [] \<or> \<not> isgraph (hd rest)"
  shows "graph_loop ident (w @ rest) = Inr (ident @ w, rest)"
  using assms
proof (induction w arbitrary: ident)
  case Nil
  then show ?case by (cases rest) auto
next
  case (Cons c w)
  from Cons.prems have "graph_loop (ident @ [c]) (w @ rest) = Inr ((ident @ [c]) @ w, rest)"
    by (intro Cons.IH) auto
  with Cons.prems show ?case by simp
qed

lemma accumulate_digits:
  assumes "list_all isdigit ds"
  shows "accumulate 10 (of_nat n) ds = Inr (of_nat (foldl (\<lambda>n c. 10 * n + (of_char c - 48)) n ds))"
  using assms
proof (induction ds arbitrary: n)
  case Nil
  then show ?case by simp
next
  case (Cons c ds)
  from Cons.prems have d: "map_char_to_number c = Inr (of_nat (of_char c - 48))"
    by (simp add: digit_facts)
  have "(of_nat n :: 32 word) * of_nat 10 + of_nat (of_char c - 48) = of_nat (10 * n + (of_char c - 48))"
    by simp
  with Cons show ?case by (simp add: d del: of_nat_add of_nat_mult)
qed

lemma down_32_16: "is_down (ucast :: 32 word \<Rightarrow> cell)"
  by (simp add: is_down)

lemma ucast_nat: "(ucast (of_nat n :: 32 word) :: cell) = of_nat n"
  using ucast_down_wi [OF down_32_16, of "int n"] by simp

lemma ucast_neg_nat: "(ucast (- (of_nat n :: 32 word)) :: cell) = - of_nat n"
  using ucast_down_wi [OF down_32_16, of "- int n"] by simp

lemma number_decimal:
  assumes "ds \<noteq> []" and "list_all isdigit ds"
  shows "number ds = Inr (Some (of_nat (decimal_value ds)))"
    and "number (CHR ''-'' # ds) = Inr (Some (- of_nat (decimal_value ds)))"
proof -
  obtain c cs where ds: "ds = c # cs" using assms(1) by (cases ds) auto
  with assms(2) have c: "isdigit c" by simp
  have acc: "accumulate 10 0 ds = Inr (of_nat (decimal_value ds))"
    using accumulate_digits [OF assms(2), of 0] by (simp add: decimal_value_def)
  have la: "list_all (\<lambda>c. numeric c 10) ds"
    using assms(2) by (induction ds) (auto simp: digit_facts)
  show "number ds = Inr (Some (of_nat (decimal_value ds)))"
    using la acc digit_facts(2,3) [OF c]
    by (simp add: number_def Let_def ds [symmetric] ucast_nat) (simp add: ds)
  show "number (CHR ''-'' # ds) = Inr (Some (- of_nat (decimal_value ds)))"
    using la acc digit_facts(2,3) [OF c]
    by (simp add: number_def Let_def ucast_neg_nat) (simp add: ds)
qed


text \<open>
  Claim C9. A bare word made of one or more decimal digits, with or without one leading
  \<open>-\<close>, of at most 255 characters, followed by the end of the input or by a character
  that is not graphical, makes the lexer produce a literal token and no error; the
  16-bit value of the token is the integer the digits denote reduced modulo \<open>2^16\<close>,
  negated (modulo \<open>2^16\<close>) when the \<open>-\<close> is there. The flag \<^verbatim>\<open>in_definition\<close> is unchanged
  and the input after the word is left to be read.
\<close>

theorem lexer_decimal_literal:
  assumes "ds \<noteq> []" and "list_all isdigit ds"
    and "sign = [] \<or> sign = ''-''"
    and "length (sign @ ds) \<le> 255"
    and "rest = [] \<or> \<not> isgraph (hd rest)"
  shows "lexer_graph cf in_def (sign @ ds @ rest) =
           Inr (LEX_LITERAL (word_of_int (if sign = [] then int (decimal_value ds)
                                          else - int (decimal_value ds))), in_def, rest)
         \<and> uint (word_of_int (int (decimal_value ds)) :: cell) = int (decimal_value ds) mod 2 ^ 16"
proof -
  define w where "w = sign @ ds"
  define lit :: cell where
    "lit = word_of_int (if sign = [] then int (decimal_value ds) else - int (decimal_value ds))"
  have "list_all isgraph ds"
    using assms(2) by (induction ds) (auto simp: digit_facts)
  moreover have "isgraph CHR ''-''" by (simp add: isgraph_def)
  ultimately have g: "list_all isgraph w" using assms(3) by (auto simp: w_def)
  obtain c w' where cw: "w = c # w'"
    using assms(1) by (cases w) (auto simp: w_def)
  with g have c: "isgraph c" by simp
  have loop: "graph_loop [] (w @ rest) = Inr (w, rest)"
    using graph_loop_word [OF g, of "[]" rest] assms(4,5) by (simp add: w_def)
  have num: "number w = Inr (Some lit)"
    using assms(3) number_decimal [OF assms(1,2)] by (auto simp: w_def lit_def)
  have word: "lexer_word cf in_def w = Inr (LEX_LITERAL lit, in_def)"
    by (simp add: lexer_word_def num)
  have "lexer_graph cf in_def (w @ rest) = Inr (LEX_LITERAL lit, in_def, rest)"
  proof -
    have "lexer_graph cf in_def (w @ rest) =
        ebind (graph_loop [] (w @ rest)) (\<lambda>(ident, rest).
          ebind (lexer_word cf in_def ident) (\<lambda>(tok, in_def'). Inr (tok, in_def', rest)))"
      by (simp add: lexer_graph_def cw c)
    then show ?thesis by (simp add: loop word)
  qed
  then have "lexer_graph cf in_def (sign @ ds @ rest) = Inr (LEX_LITERAL lit, in_def, rest)"
    by (simp add: w_def)
  moreover have "uint (word_of_int (int (decimal_value ds)) :: cell) = int (decimal_value ds) mod 2 ^ 16"
    by (simp add: unsigned_of_nat take_bit_eq_mod of_nat_mod)
  ultimately show ?thesis unfolding lit_def by simp
qed

theorem lexer_decimal_literal_witness:
  "lexer_graph header_spec False ''-70000 dup'' = Inr (LEX_LITERAL 0xEE90, False, '' dup'')
   \<and> lexer_graph header_spec True ''65537'' = Inr (LEX_LITERAL 1, True, [])"
proof -
  have d: "list_all isdigit ''70000''" "list_all isdigit ''65537''" "\<not> isgraph (hd '' dup'')"
    by (simp_all add: isdigit_def isgraph_def)
  have v: "decimal_value ''70000'' = 70000" "decimal_value ''65537'' = 65537"
    by (simp_all add: decimal_value_def)
  have w: "(word_of_int (- 70000) :: cell) = 0xEE90" "(word_of_int 65537 :: cell) = 1"
    by simp_all
  have 1: "lexer_graph header_spec False (''-'' @ ''70000'' @ '' dup'') =
      Inr (LEX_LITERAL 0xEE90, False, '' dup'')"
    using lexer_decimal_literal [of "''70000''" "''-''" "'' dup''" header_spec False] d
    by (simp add: v w)
  have 2: "lexer_graph header_spec True ([] @ ''65537'' @ []) = Inr (LEX_LITERAL 1, True, [])"
    using lexer_decimal_literal [of "''65537''" "[]" "[]" header_spec True] d
    by (simp add: v w)
  from 1 2 show ?thesis by simp
qed

section \<open>Properties: the branch prefix\<close>

lemma unat_succ: "unat (p::cell) + 1 < 65536 \<Longrightarrow> unat (p + 1) = unat p + 1"
proof -
  assume "unat p + 1 < 65536"
  then have "unat p + unat (1::cell) < 2 ^ LENGTH(16)" by simp
  then have "unat (p + 1) = unat p + unat (1::cell)" by (simp only: unat_add_lem)
  then show ?thesis by simp
qed

lemma unat_pred: "p \<noteq> 0 \<Longrightarrow> unat (p - 1 :: cell) = unat p - 1"
  by (simp add: unat_minus_one)

lemma budget_mono: "budget cf c0 b h a \<Longrightarrow> b' \<le> b \<Longrightarrow> budget cf c0 b' h a"
  by (auto simp: budget_def)

lemma budget_safe: "budget cf c0 b h a \<Longrightarrow> prefix_safe cf c0 h a"
  by (simp add: budget_def)

lemma prefix_safe_fence: "prefix_safe cf c0 h a \<Longrightarrow> prefix_safe cf c0 h (update_fence a p)"
  by (auto simp: prefix_safe_def update_fence_def max_def word_le_nat_alt)

lemma budget_fence: "budget cf c0 b h a \<Longrightarrow> budget cf c0 b h (update_fence a p)"
  by (simp add: budget_def prefix_safe_fence)

lemma budget_assembler:
  "budget cf c0 b h a \<Longrightarrow> fence a' = fence a \<Longrightarrow> budget cf c0 b h a'"
  by (simp add: budget_def prefix_safe_def)

lemma emit_budget:
  assumes "budget cf c0 (Suc b) h a"
  shows "budget cf c0 b (emit h i) a"
proof -
  from assms have ps: "prefix_safe cf c0 h a" and rm: "unat (pc h) + 1 < 65536"
    and rb: "unat (pc h) + Suc b < 65536"
    by (simp_all add: budget_def)
  have u: "unat (pc h + 1) = unat (pc h) + 1" using rm by (rule unat_succ)
  have "x \<noteq> pc h" if "unat x < unat (START_ADDR cf)" for x
    using that ps by (auto simp: prefix_safe_def)
  then show ?thesis
    using ps rb u by (auto simp: budget_def prefix_safe_def emit_def)
qed

lemma rewrite_budget:
  assumes "budget cf c0 b h a" and "pc h \<noteq> 0" and "unat (fence a) \<le> unat (pc h) - 1"
  shows "budget cf c0 b (h\<lparr> core := (core h)(pc h - 1 := v) \<rparr>) (update_fence a (pc h - 1))"
proof -
  from assms(1) have ps: "prefix_safe cf c0 h a" by (rule budget_safe)
  have u: "unat (pc h - 1) = unat (pc h) - 1" using assms(2) by (rule unat_pred)
  have "x \<noteq> pc h - 1" if "unat x < unat (START_ADDR cf)" for x
    using that ps assms(3) u by (auto simp: prefix_safe_def)
  then show ?thesis
    using assms(1) prefix_safe_fence [OF ps, of "pc h - 1"]
    by (auto simp: budget_def prefix_safe_def)
qed

lemma generate_budget:
  assumes bd: "budget cf c0 (Suc b) h a" and g: "generate cf h a i = (h', a')"
  shows "budget cf c0 b h' a'"
proof -
  define a1 where "a1 = (if IS_CALL i \<or> IS_LITERAL i \<or> IS_0BRANCH i \<or> IS_BRANCH i
              then update_fence a (pc h) else a)"
  have b1: "budget cf c0 (Suc b) h a1"
    using bd budget_fence [OF bd, of "pc h"] by (simp add: a1_def)
  have em: "budget cf c0 b (emit h i) a1"
    using emit_budget [OF b1] .
  have rw: "budget cf c0 b (h\<lparr> core := (core h)(pc h - 1 := v) \<rparr>) (update_fence a1 (pc h - 1))"
    if "pc h \<noteq> 0" "unat (fence a1) \<le> unat (pc h) - 1" for v
    using rewrite_budget [OF b1 that] by (rule budget_mono) simp
  have c1: "unat (fence a1) \<le> unat (pc h) - 1" if "uint (fence a1) < uint (pc h) - 1"
  proof -
    from that have "int (unat (fence a1)) < int (unat (pc h)) - 1"
      unfolding uint_nat .
    then show ?thesis by linarith
  qed
  have c2: "unat (fence a1) \<le> unat (pc h) - 1" if "fence a1 < pc h"
  proof -
    from that have "unat (fence a1) < unat (pc h)"
      unfolding word_less_nat_alt .
    then show ?thesis by linarith
  qed
  from g have "(h', a') = (emit h i, a1)
      \<or> (pc h \<noteq> 0 \<and> uint (fence a1) < uint (pc h) - 1
          \<and> (h', a') = (h\<lparr> core := (core h)(pc h - 1 := core h (pc h - 1) OR i) \<rparr>,
                        update_fence a1 (pc h - 1)))
      \<or> (pc h \<noteq> 0 \<and> fence a1 < pc h
          \<and> (h', a') = (h\<lparr> core := (core h)(pc h - 1 := OP_BRANCH OR (core h (pc h - 1) AND 0x1FFF)) \<rparr>,
                        update_fence a1 (pc h - 1)))"
    unfolding generate_def Let_def a1_def [symmetric]
    by (auto split: if_splits)
  then show ?thesis
    using em rw c1 c2 by auto
qed

lemma generate_literal_budget:
  assumes "budget cf c0 (Suc (Suc b)) h a" and "generate_literal cf h a n = (h', a')"
  shows "budget cf c0 b h' a'"
proof (cases "n AND OP_LITERAL \<noteq> 0")
  case True
  obtain h1 a1 where g1: "generate cf h a (OP_LITERAL OR NOT n) = (h1, a1)"
    by (cases "generate cf h a (OP_LITERAL OR NOT n)")
  with assms(2) True have g2: "generate cf h1 a1 CODE_INVERT = (h', a')"
    by (simp add: generate_literal_def)
  from generate_budget [OF assms(1) g1] g2 show ?thesis by (rule generate_budget)
next
  case False
  with assms(2) have "generate cf h a (OP_LITERAL OR n) = (h', a')"
    by (simp add: generate_literal_def)
  with budget_mono [OF assms(1), of "Suc b"] show ?thesis
    by (auto intro: generate_budget)
qed

lemma generate_all_budget:
  assumes "budget cf c0 (length cs + b) h a" and "generate_all cf cs h a = (h', a')"
  shows "budget cf c0 b h' a'"
  using assms
proof (induction cs arbitrary: h a)
  case Nil
  then show ?case by simp
next
  case (Cons c cs)
  obtain h1 a1 where g1: "generate cf h a c = (h1, a1)" by (cases "generate cf h a c")
  from Cons.prems(1) have "budget cf c0 (Suc (length cs + b)) h a" by simp
  from generate_budget [OF this g1] have "budget cf c0 (length cs + b) h1 a1" .
  moreover from Cons.prems(2) g1 have "generate_all cf cs h1 a1 = (h', a')" by simp
  ultimately show ?case by (rule Cons.IH)
qed

lemma here_budget:
  assumes "budget cf c0 b h a" and "here cf h a = Inr (p, a')"
  shows "budget cf c0 b h a' \<and> p = pc h"
  using assms budget_fence [OF assms(1), of "pc h"]
  by (auto simp: here_def split: if_splits)

lemma hole_budget:
  assumes "budget cf c0 (Suc b) h a" and "hole cf h a = Inr (p, h', a')"
  shows "budget cf c0 b h' a' \<and> p = pc h \<and> core h' = core h"
proof -
  from assms(2) have e: "p = pc h" "h' = h\<lparr> pc := pc h + 1 \<rparr>" "a' = update_fence a (pc h)"
    by (auto simp: hole_def here_def split: if_splits)
  have "budget cf c0 b (emit h (core h (pc h))) a"
    using emit_budget [OF assms(1)] .
  moreover have "emit h (core h (pc h)) = h\<lparr> pc := pc h + 1 \<rparr>"
    by (simp add: emit_def)
  ultimately show ?thesis
    using e budget_fence by auto
qed

lemma fix_cell_budget:
  assumes "budget cf c0 b h a" and "fix_cell cf h hol v = Inr h'"
    and "unat (START_ADDR cf) \<le> unat hol"
  shows "budget cf c0 b h' a \<and> pc h' = pc h"
proof -
  from assms(2) have e: "h' = h\<lparr> core := (core h)(hol := v) \<rparr>"
    by (auto simp: fix_cell_def split: if_splits)
  have "x \<noteq> hol" if "unat x < unat (START_ADDR cf)" for x
    using that assms(3) by auto
  then show ?thesis
    using assms(1) e by (auto simp: budget_def prefix_safe_def)
qed

lemma budget_pc: "budget cf c0 b h a \<Longrightarrow> unat (START_ADDR cf) \<le> unat (pc h)"
  by (simp add: budget_def prefix_safe_def)

lemma fill_budget:
  assumes "budget cf c0 (Suc b) h a" and "fill cf h a v = Inr (h', a')"
  shows "budget cf c0 b h' a'"
proof -
  from assms(2) obtain hol h1 where hl: "hole cf h a = Inr (hol, h1, a')"
    and e: "h' = h1\<lparr> core := (core h1)(hol := v) \<rparr>"
    by (auto simp: fill_def ebind_Inr)
  from hole_budget [OF assms(1) hl] have b1: "budget cf c0 b h1 a'" and p: "hol = pc h"
    by simp_all
  have "x \<noteq> hol" if "unat x < unat (START_ADDR cf)" for x
    using that budget_pc [OF assms(1)] p by auto
  then show ?thesis
    using b1 e by (auto simp: budget_def prefix_safe_def)
qed

lemma pack_pairs_budget:
  assumes "budget cf c0 (length xs + b) h a" and "pack_pairs cf s xs h a = Inr (h', a')"
  shows "budget cf c0 b h' a'"
  using assms
proof (induction xs arbitrary: h a)
  case Nil
  then show ?case by simp
next
  case (Cons x xs)
  from Cons.prems(2) obtain h1 a1
    where f: "fill cf h a (pack_16 (c_str s x) (c_str s (x + 1))) = Inr (h1, a1)"
      and r: "pack_pairs cf s xs h1 a1 = Inr (h', a')"
    by (auto simp: ebind_Inr)
  from Cons.prems(1) have "budget cf c0 (Suc (length xs + b)) h a" by simp
  from fill_budget [OF this f] r show ?case by (rule Cons.IH)
qed

lemma pack_string_budget:
  assumes "budget cf c0 (256 + b) h a" and "pack_string cf h a s = Inr (r, h', a')"
  shows "budget cf c0 b h' a' \<and> r = pc h"
proof -
  let ?xs = "filter odd [1..<length s]"
  from assms(2) have len: "length s \<le> 255"
    by (auto simp: pack_string_def Let_def split: if_splits)
  from assms(2) len obtain h1 a1 h2 a2 p where
    f: "fill cf h a (pack_16 (of_nat (length s)) (c_str s 0)) = Inr (h1, a1)"
    and pp: "pack_pairs cf s ?xs h1 a1 = Inr (h2, a2)"
    and hr: "here cf h2 a2 = Inr (p, a')" and e: "h' = h2" "r = pc h"
    by (auto simp: pack_string_def Let_def ebind_Inr)
  have l: "length ?xs \<le> 255"
    using len length_filter_le [of odd "[1..<length s]"] by simp
  from assms(1) have "budget cf c0 (Suc (255 + b)) h a" by simp
  from fill_budget [OF this f] have "budget cf c0 (255 + b) h1 a1" .
  then have "budget cf c0 (length ?xs + b) h1 a1"
    using l by (auto intro: budget_mono)
  from pack_pairs_budget [OF this pp] have "budget cf c0 b h2 a2" .
  from here_budget [OF this hr] e show ?thesis by simp
qed

lemma word_header_budget:
  assumes "budget cf c0 (257 + b) h a" and "word_header cf h a v nm = Inr (h', a')"
  shows "budget cf c0 b h' a'"
proof -
  from assms(2) obtain hole1 h1 a1 h2 r where
    hl: "hole cf h a = Inr (hole1, h1, a1)"
    and fx: "fix_cell cf h1 hole1 v = Inr h2"
    and ps: "pack_string cf h2 (a1\<lparr> pwd := push_bit 1 hole1 \<rparr>) nm = Inr (r, h', a')"
    by (auto simp: word_header_def ebind_Inr)
  from assms(1) have "budget cf c0 (Suc (256 + b)) h a" by simp
  from hole_budget [OF this hl] have b1: "budget cf c0 (256 + b) h1 a1" and p: "hole1 = pc h"
    by simp_all
  have "unat (START_ADDR cf) \<le> unat hole1"
    using budget_pc [OF assms(1)] p by simp
  from fix_cell_budget [OF b1 fx this] have "budget cf c0 (256 + b) h2 a1" by simp
  then have "budget cf c0 (256 + b) h2 (a1\<lparr> pwd := push_bit 1 hole1 \<rparr>)"
    by (rule budget_assembler) simp
  from pack_string_budget [OF this ps] show ?thesis by simp
qed

lemma generate_loop_decrement_budget:
  assumes "budget cf c0 (3 + b) h a" and "generate_loop_decrement cf h a t = (h', a')"
  shows "budget cf c0 b h' a'"
proof -
  define a0 where "a0 = a\<lparr> do_r_minus_one := (case do_r_minus_one a of Some s \<Rightarrow> Some s
                  | None \<Rightarrow> symbol_table_lookup t ''r1-'') \<rparr>"
  have "budget cf c0 (Suc (Suc (Suc b))) h a"
    using assms(1) by (simp add: numeral_3_eq_3)
  then have b0: "budget cf c0 (Suc (Suc (Suc b))) h a0"
    by (rule budget_assembler) (simp add: a0_def)
  have three: "budget cf c0 b h' a'"
    if "(case generate cf h a0 (CODE_FROMR cf) of (h1, a1) \<Rightarrow>
          case generate cf h1 a1 (CODE_T_N1 cf) of (h2, a2) \<Rightarrow> generate cf h2 a2 (CODE_TOR cf)) = (h', a')"
  proof -
    obtain h1 a1 where g1: "generate cf h a0 (CODE_FROMR cf) = (h1, a1)"
      by (cases "generate cf h a0 (CODE_FROMR cf)")
    obtain h2 a2 where g2: "generate cf h1 a1 (CODE_T_N1 cf) = (h2, a2)"
      by (cases "generate cf h1 a1 (CODE_T_N1 cf)")
    from that g1 g2 have g3: "generate cf h2 a2 (CODE_TOR cf) = (h', a')" by simp
    from generate_budget [OF generate_budget [OF generate_budget [OF b0 g1] g2] g3]
    show ?thesis .
  qed
  have one: "budget cf c0 b h' a'" if "generate cf h a0 i = (h', a')" for i
    using generate_budget [OF b0 that] by (rule budget_mono) simp
  from assms(2) show ?thesis
    unfolding generate_loop_decrement_def Let_def a0_def [symmetric]
    using three one by (auto split: option.splits if_splits)
qed

lemma generate_budget_pair:
  assumes "budget cf c0 (Suc b) h a"
  shows "budget cf c0 b (fst (generate cf h a i)) (snd (generate cf h a i))"
  using generate_budget [OF assms, of i] by (cases "generate cf h a i") simp

lemma fix_here_budget:
  assumes "budget cf c0 b h a" and "fix_here cf hol opc (h, a, t) = Inr (h', a', t')"
    and "unat (START_ADDR cf) \<le> unat hol"
  shows "budget cf c0 b h' a' \<and> t' = t"
proof -
  from assms(2) obtain p a1 where hr: "here cf h a = Inr (p, a1)"
    and fx: "fix_cell cf h hol (opc OR p) = Inr h'" and e: "a' = a1" "t' = t"
    by (auto simp: fix_here_def ebind_Inr)
  from here_budget [OF assms(1) hr] have "budget cf c0 b h a1" by simp
  from fix_cell_budget [OF this fx assms(3)] e show ?thesis by simp
qed

lemma for_next_tail_budget:
  assumes "budget cf c0 (7 + b) h a" and "for_next_tail cf dn hole1 (h, a, t) = Inr (h', a', t')"
  shows "budget cf c0 b h' a' \<and> t' = t"
proof (cases dn)
  case (Some sy)
  obtain h1 a1 where g1: "generate cf h a (OP_CALL OR val sy) = (h1, a1)"
    by (cases "generate cf h a (OP_CALL OR val sy)")
  from assms(2) Some g1 have g2: "generate cf h1 a1 (push_bit 1 hole1) = (h', a')" and e: "t' = t"
    by (auto simp: for_next_tail_def split: prod.splits)
  from assms(1) have "budget cf c0 (Suc (Suc b)) h a" by (rule budget_mono) simp
  from generate_budget [OF generate_budget [OF this g1] g2] e show ?thesis by simp
next
  case None
  obtain h1 a1 where g1: "generate cf h a (CODE_RAT cf) = (h1, a1)"
    by (cases "generate cf h a (CODE_RAT cf)")
  from assms(2) None g1 obtain hole2 h2 a2 where hl: "hole cf h1 a1 = Inr (hole2, h2, a2)"
    by (auto simp: for_next_tail_def ebind_Inr)
  obtain h3 a3 where ld: "generate_loop_decrement cf h2 a2 t = (h3, a3)"
    by (cases "generate_loop_decrement cf h2 a2 t")
  obtain h4 a4 where g4: "generate cf h3 a3 (OP_BRANCH OR hole1) = (h4, a4)"
    by (cases "generate cf h3 a3 (OP_BRANCH OR hole1)")
  from assms(2) None g1 hl ld g4 obtain p a5 h6 where hr: "here cf h4 a4 = Inr (p, a5)"
    and fx: "fix_cell cf h4 hole2 (OP_0BRANCH OR p) = Inr h6"
    and rest: "(case generate cf h6 a5 (CODE_RDROP cf) of (h7, a7) \<Rightarrow> Inr (h7, a7, t)) =
        (Inr (h', a', t') :: error + asm_state)"
    by (auto simp: for_next_tail_def ebind_Inr)
  from rest have g7: "generate cf h6 a5 (CODE_RDROP cf) = (h', a')" and e: "t' = t"
    by (auto split: prod.splits)
  from assms(1) have "budget cf c0 (Suc (Suc (3 + Suc (Suc b)))) h a" by simp
  from generate_budget [OF this g1] have b1: "budget cf c0 (Suc (3 + Suc (Suc b))) h1 a1" .
  from hole_budget [OF b1 hl] have b2: "budget cf c0 (3 + Suc (Suc b)) h2 a2" and p2: "hole2 = pc h1"
    by simp_all
  from generate_loop_decrement_budget [OF b2 ld] have "budget cf c0 (Suc (Suc b)) h3 a3" .
  from generate_budget [OF this g4] have "budget cf c0 (Suc b) h4 a4" .
  from here_budget [OF this hr] have b5: "budget cf c0 (Suc b) h4 a5" by simp
  have "unat (START_ADDR cf) \<le> unat hole2"
    using budget_pc [OF b1] p2 by simp
  from fix_cell_budget [OF b5 fx this] have "budget cf c0 (Suc b) h6 a5" by simp
  from generate_budget [OF this g7] e show ?thesis by simp
qed

lemma definition_head_budget:
  assumes "budget cf c0 (257 + b) h a" and "definition_head cf bits0 tok (h, a, t) = Inr (h', a', t')"
  shows "budget cf c0 b h' a'"
proof -
  from assms(2) obtain h1 a1 p a2 where
    wh: "(h1, a1) = (h, a) \<or> (\<exists>v nm. word_header cf h a v nm = Inr (h1, a1))"
    and hr: "here cf h1 a1 = Inr (p, a2)"
    and e: "h' = h1" "a' = a2\<lparr> in_definition := True \<rparr>"
    by (auto simp: definition_head_def Let_def ebind_Inr split: if_splits) blast+
  from wh have "budget cf c0 b h1 a1"
  proof
    assume "(h1, a1) = (h, a)"
    with assms(1) show ?thesis by (auto intro: budget_mono)
  next
    assume "\<exists>v nm. word_header cf h a v nm = Inr (h1, a1)"
    then obtain v nm where "word_header cf h a v nm = Inr (h1, a1)" by blast
    from word_header_budget [OF assms(1) this] show ?thesis .
  qed
  from here_budget [OF this hr] have "budget cf c0 b h1 a2" by simp
  then have "budget cf c0 b h1 (a2\<lparr> in_definition := True \<rparr>)"
    by (rule budget_assembler) simp
  with e show ?thesis by simp
qed

lemma built_in_word_budget:
  assumes "budget cf c0 (258 + length (bw_code bw) + b) h a"
    and "built_in_word cf bw (h, a, t) = Inr (h', a', t')"
  shows "budget cf c0 b h' a'"
proof (cases "compile bw")
  case False
  with assms(2) have "h' = h" "a' = a" by (simp_all add: built_in_word_def)
  with assms(1) show ?thesis by (auto intro: budget_mono)
next
  case True
  let ?cs = "take (len bw) (bw_code bw)"
  from assms(2) True obtain h1 a1 p a2 where
    wh: "(h1, a1) = (h, a) \<or> (\<exists>v nm. word_header cf h a v nm = Inr (h1, a1))"
    and hr: "here cf h1 a1 = Inr (p, a2)"
    and rest: "\<exists>t1. (case generate_all cf ?cs h1 a2 of (h3, a3) \<Rightarrow>
                 case generate cf h3 a3 (CODE_EXIT cf) of (h4, a4) \<Rightarrow> Inr (h4, a4, t1)) =
               (Inr (h', a', t') :: error + asm_state)"
    by (auto simp: built_in_word_def ebind_Inr split: if_splits) blast+
  from assms(1) have b0: "budget cf c0 (257 + (length ?cs + Suc b)) h a"
    by (rule budget_mono) simp
  from wh have "budget cf c0 (length ?cs + Suc b) h1 a1"
  proof
    assume "(h1, a1) = (h, a)"
    with b0 show ?thesis by (auto intro: budget_mono)
  next
    assume "\<exists>v nm. word_header cf h a v nm = Inr (h1, a1)"
    then obtain v nm where "word_header cf h a v nm = Inr (h1, a1)" by blast
    from word_header_budget [OF b0 this] show ?thesis .
  qed
  from here_budget [OF this hr] have b2: "budget cf c0 (length ?cs + Suc b) h1 a2" by simp
  obtain h3 a3 where ga: "generate_all cf ?cs h1 a2 = (h3, a3)"
    by (cases "generate_all cf ?cs h1 a2")
  with rest have g: "generate cf h3 a3 (CODE_EXIT cf) = (h', a')"
    by (cases "generate cf h3 a3 (CODE_EXIT cf)") auto
  from generate_budget [OF generate_all_budget [OF b2 ga] g] show ?thesis .
qed

lemma built_in_loop_budget:
  assumes "budget cf c0 (sum_list (map (\<lambda>b. 258 + length (bw_code b)) bs) + b) h a"
    and "built_in_loop cf bs (h, a, t) = Inr (h', a', t')"
  shows "budget cf c0 b h' a'"
  using assms
proof (induction bs arbitrary: h a t)
  case Nil
  then show ?case by simp
next
  case (Cons bw bs)
  from Cons.prems(2) obtain h1 a1 t1 where w: "built_in_word cf bw (h, a, t) = Inr (h1, a1, t1)"
    and r: "built_in_loop cf bs (h1, a1, t1) = Inr (h', a', t')"
    by (auto split: sum.splits)
  from Cons.prems(1) have "budget cf c0
      (258 + length (bw_code bw) + (sum_list (map (\<lambda>b. 258 + length (bw_code b)) bs) + b)) h a"
    by (simp add: add.assoc)
  from built_in_word_budget [OF this w] r show ?case by (rule Cons.IH)
qed

lemma case_prod_Inr:
  "(case p of (x, y) \<Rightarrow> f x y) = Inr r \<longleftrightarrow> (\<exists>x y. p = (x, y) \<and> f x y = Inr r)"
  by (cases p) simp

lemma assemble_label_budget:
  assumes "budget cf c0 b h a" and "assemble_label cf tok (h, a, t) = Inr (h', a', t')"
  shows "budget cf c0 b h' a'"
proof -
  from assms(2) obtain p where "here cf h a = Inr (p, a')" and "h' = h"
    by (auto simp: assemble_label_def ebind_Inr)
  with here_budget [OF assms(1)] show ?thesis by simp
qed

lemma assemble_jump_budget:
  assumes "budget cf c0 (Suc b) h a" and "assemble_jump cf tok ty (h, a, t) = Inr (h', a', t')"
  shows "budget cf c0 b h' a'"
proof -
  from assms(2) obtain i where "generate cf h a i = (h', a')"
    by (auto simp: assemble_jump_def generate_jump_def ebind_Inr split: if_splits)
  with generate_budget [OF assms(1)] show ?thesis by simp
qed

lemma assemble_constant_budget:
  assumes "budget cf c0 (259 + b) h a"
    and "assemble_constant cf bits tok vtok (h, a, t) = Inr (h', a', t')"
  shows "budget cf c0 b h' a'"
proof (cases "header_wanted a bits")
  case False
  with assms(2) have "h' = h" "a' = a"
    by (auto simp: assemble_constant_def ebind_Inr)
  with assms(1) show ?thesis by (auto intro: budget_mono)
next
  case True
  define a0 where "a0 = a\<lparr> do_const := cached (do_const a) t ''doConst'' \<rparr>"
  from assms(2) True obtain dc :: symbol_t and i h1 a1 h2 a2 hole1 h3 num where
    wh: "word_header cf h a0 (pwd a0) i = Inr (h1, a1)"
    and g: "generate cf h1 a1 (OP_CALL OR val dc) = (h2, a2)"
    and hl: "hole cf h2 a2 = Inr (hole1, h3, a')"
    and fx: "fix_cell cf h3 hole1 num = Inr h'"
    unfolding assemble_constant_def prod.case Let_def a0_def [symmetric]
    by (auto simp: ebind_Inr case_prod_Inr split: option.splits)
  from assms(1) have "budget cf c0 (257 + Suc (Suc b)) h a" by simp
  then have "budget cf c0 (257 + Suc (Suc b)) h a0"
    by (rule budget_assembler) (simp add: a0_def)
  from word_header_budget [OF this wh] have "budget cf c0 (Suc (Suc b)) h1 a1" .
  from generate_budget [OF this g] have b2: "budget cf c0 (Suc b) h2 a2" .
  from hole_budget [OF b2 hl] have b3: "budget cf c0 b h3 a'" and p: "hole1 = pc h2" by simp_all
  have "unat (START_ADDR cf) \<le> unat hole1" using budget_pc [OF b2] p by simp
  from fix_cell_budget [OF b3 fx this] show ?thesis by simp
qed

lemma assemble_variable_budget:
  assumes "budget cf c0 (258 + b) h a"
    and "assemble_variable cf bits tok (h, a, t) = Inr (h', a', t')"
  shows "budget cf c0 b h' a'"
proof (cases "header_wanted a bits")
  case False
  with assms(2) have "h' = h" "a' = a"
    by (auto simp: assemble_variable_def split: if_splits)
  with assms(1) show ?thesis by (auto intro: budget_mono)
next
  case True
  define a0 where "a0 = a\<lparr> do_var := cached (do_var a) t ''doVar'' \<rparr>"
  from assms(2) True obtain dv :: symbol_t and i h1 a1 where
    wh: "word_header cf h a0 (pwd a0) i = Inr (h1, a1)"
    and g: "generate cf h1 a1 (OP_CALL OR val dv) = (h', a')"
    unfolding assemble_variable_def prod.case Let_def a0_def [symmetric]
    by (auto simp: ebind_Inr case_prod_Inr split: option.splits)
  from assms(1) have "budget cf c0 (257 + Suc b) h a" by simp
  then have "budget cf c0 (257 + Suc b) h a0"
    by (rule budget_assembler) (simp add: a0_def)
  from word_header_budget [OF this wh] have "budget cf c0 (Suc b) h1 a1" .
  from generate_budget [OF this g] show ?thesis .
qed

lemma assemble_location_budget:
  assumes "budget cf c0 (256 + b) h a"
    and "assemble_location cf loc tok vtok (h, a, t) = Inr (h', a', t')"
  shows "budget cf c0 b h' a'"
proof -
  from assms(2) obtain p a1 r where hr: "here cf h a = Inr (p, a1)"
    and v: "(case vtok of
          LEX_LITERAL num \<Rightarrow>
            ebind (hole cf h a1) (\<lambda>(hole1, h2, a2).
            ebind (fix_cell cf h2 hole1 num) (\<lambda>h3. Inr (hole1, h3, a2)))
        | LEX_STRING str \<Rightarrow> pack_string cf h a1 str
        | _ \<Rightarrow> Inl AssertionFailed) = Inr (r, h', a')"
    by (auto simp: assemble_location_def ebind_Inr case_prod_Inr)
  from here_budget [OF assms(1) hr] have b1: "budget cf c0 (256 + b) h a1" by simp
  show ?thesis
  proof (cases vtok)
    case (LEX_LITERAL num)
    with v obtain hole1 h2 where hl: "hole cf h a1 = Inr (hole1, h2, a')"
      and fx: "fix_cell cf h2 hole1 num = Inr h'"
      by (auto simp: ebind_Inr case_prod_Inr)
    from b1 have "budget cf c0 (Suc b) h a1" by (rule budget_mono) simp
    from hole_budget [OF this hl] have b2: "budget cf c0 b h2 a'" and p: "hole1 = pc h" by simp_all
    have "unat (START_ADDR cf) \<le> unat hole1" using budget_pc [OF b1] p by simp
    from fix_cell_budget [OF b2 fx this] show ?thesis by simp
  next
    case (LEX_STRING str)
    with v have "pack_string cf h a1 str = Inr (r, h', a')" by simp
    from pack_string_budget [OF b1 this] show ?thesis by simp
  qed (use v in simp_all)
qed

lemma assemble_quote_budget:
  assumes "budget cf c0 (Suc (Suc b)) h a" and "assemble_quote cf tok (h, a, t) = Inr (h', a', t')"
  shows "budget cf c0 b h' a'"
proof -
  from assms(2) obtain n where "generate_literal cf h a n = (h', a')"
    by (auto simp: assemble_quote_def ebind_Inr case_prod_Inr split: option.splits if_splits)
  with generate_literal_budget [OF assms(1)] show ?thesis by simp
qed

lemma assemble_call_definition_budget:
  assumes "budget cf c0 (Suc (Suc b)) h a"
    and "assemble_call_definition cf tok (h, a, t) = Inr (h', a', t')"
  shows "budget cf c0 b h' a'"
proof -
  from assms(2) have "(\<exists>n. generate_literal cf h a n = (h', a')) \<or> (\<exists>i. generate cf h a i = (h', a'))"
    by (auto simp: assemble_call_definition_def ebind_Inr case_prod_Inr split: option.splits if_splits)
  then show ?thesis
  proof
    assume "\<exists>n. generate_literal cf h a n = (h', a')"
    then obtain n where "generate_literal cf h a n = (h', a')" ..
    from generate_literal_budget [OF assms(1) this] show ?thesis .
  next
    assume "\<exists>i. generate cf h a i = (h', a')"
    then obtain i where "generate cf h a i = (h', a')" ..
    from generate_budget [OF assms(1) this] show ?thesis by (rule budget_mono) simp
  qed
qed

lemma assemble_char_budget:
  assumes "budget cf c0 (Suc b) h a" and "assemble_char cf tok (h, a, t) = Inr (h', a', t')"
  shows "budget cf c0 b h' a'"
proof -
  from assms(2) obtain i where "generate cf h a i = (h', a')"
    by (auto simp: assemble_char_def ebind_Inr case_prod_Inr)
  with generate_budget [OF assms(1)] show ?thesis by simp
qed

lemma assemble_instruction_budget:
  assumes "budget cf c0 (Suc b) h a" and "assemble_instruction cf tok (h, a, t) = Inr (h', a', t')"
  shows "budget cf c0 b h' a'"
proof -
  from assms(2) obtain i where "generate cf h a i = (h', a')"
    by (auto simp: assemble_instruction_def ebind_Inr case_prod_Inr)
  with generate_budget [OF assms(1)] show ?thesis by simp
qed

lemma assemble_literal_budget:
  assumes "budget cf c0 (Suc (Suc b)) h a" and "assemble_literal cf tok (h, a, t) = Inr (h', a', t')"
  shows "budget cf c0 b h' a'"
proof -
  from assms(2) obtain n where "generate_literal cf h a n = (h', a')"
    by (auto simp: assemble_literal_def ebind_Inr case_prod_Inr)
  with generate_literal_budget [OF assms(1)] show ?thesis by simp
qed

lemma assemble_pwd_budget:
  assumes "budget cf c0 b h a" and "assemble_pwd tok (h, a, t) = Inr (h', a', t')"
  shows "budget cf c0 b h' a'"
proof -
  from assms(2) obtain v where "h' = h" "a' = a\<lparr> pwd := v \<rparr>"
    by (auto simp: assemble_pwd_def ebind_Inr)
  with budget_assembler [OF assms(1), of "a\<lparr> pwd := v \<rparr>"] show ?thesis by simp
qed

lemma assemble_mode_budget:
  assumes "budget cf c0 b h a" and "assemble_mode cf tok (h, a, t) = Inr (h', a', t')"
  shows "budget cf c0 b h' a'"
proof -
  from assms(2) obtain v where "h' = h" "a' = a\<lparr> mode := v \<rparr>"
    by (auto simp: assemble_mode_def ebind_Inr)
  with budget_assembler [OF assms(1), of "a\<lparr> mode := v \<rparr>"] show ?thesis by simp
qed

lemma assemble_built_in_budget:
  assumes "budget cf c0 (built_in_cells cf + b) h a"
    and "assemble_built_in cf (h, a, t) = Inr (h', a', t')"
  shows "budget cf c0 b h' a'"
proof (cases "mode a AND MODE_COMPILE_WORD_HEADER = 0")
  case True
  with assms(2) have "h' = h" "a' = a" by (simp_all add: assemble_built_in_def)
  with assms(1) show ?thesis by (auto intro: budget_mono)
next
  case False
  with assms(2) have l: "built_in_loop cf (built_in_words cf)
      (h, a\<lparr> built_in_words_defined := True \<rparr>, t) = Inr (h', a', t')"
    by (simp add: assemble_built_in_def split: if_splits)
  have "budget cf c0 (built_in_cells cf + b) h (a\<lparr> built_in_words_defined := True \<rparr>)"
    using assms(1) by (rule budget_assembler) simp
  then show ?thesis
    unfolding built_in_cells_def using l by (rule built_in_loop_budget)
qed

end
